theory Spec2Isabelle
  imports Complex_Main "HOL-Library.Sublist"
begin

section \<open>Python values used by the client\<close>

text \<open>
  Strings are byte strings (UTF-8). \<open>str.lower\<close> and \<open>str.strip\<close> are modelled on
  their ASCII part: the only letters the client looks for are ASCII, and no character
  outside ASCII lower-cases to one of them followed by the next letter of a phrase.
\<close>

definition py_lower_char :: "char \<Rightarrow> char" where
  "py_lower_char c =
     (case map_of (zip ''ABCDEFGHIJKLMNOPQRSTUVWXYZ'' ''abcdefghijklmnopqrstuvwxyz'') c of
        None \<Rightarrow> c
      | Some d \<Rightarrow> d)"

definition py_lower :: "string \<Rightarrow> string" where
  "py_lower s = map py_lower_char s"

text \<open>
  \<open>str.strip()\<close> drops the blanks at both ends; in ASCII these are tab, LF, VT, FF,
  CR, the four separators FS, GS, RS, US and the space.
\<close>

definition strip_chars :: "(char \<Rightarrow> bool) \<Rightarrow> string \<Rightarrow> string" where
  "strip_chars blank s = rev (dropWhile blank (rev (dropWhile blank s)))"

definition py_isspace :: "char \<Rightarrow> bool" where
  "py_isspace c =
     (c \<in> set [CHR 0x09, CHR 0x0A, CHR 0x0B, CHR 0x0C, CHR 0x0D,
                CHR 0x1C, CHR 0x1D, CHR 0x1E, CHR 0x1F, CHR 0x20])"

definition py_strip :: "string \<Rightarrow> string" where
  "py_strip s = strip_chars py_isspace s"

text \<open>\<open>needle in hay\<close> on strings: \<open>needle\<close> occurs as a contiguous run of \<open>hay\<close>.\<close>

fun py_in :: "string \<Rightarrow> string \<Rightarrow> bool" where
  "py_in needle [] = (needle = [])"
| "py_in needle (c # cs) = (prefix needle (c # cs) \<or> py_in needle cs)"

text \<open>
  A decoded JSON document; an object is the list of the members of the decoded
  dictionary, one for each key.
\<close>

datatype json =
    JNull
  | JBool bool
  | JNum int
  | JStr string
  | JArr "json list"
  | JObj "(string \<times> json) list"

text \<open>The exceptions the scripts can meet. The first three are subclasses of
  \<open>requests.RequestException\<close>.\<close>

datatype exn =
    ConnectionError
  | HTTPError
  | JSONDecodeError
  | AttributeError
  | KeyError
  | TypeError
  | ValueError
  | NameError
  | KeyboardInterrupt
  | FileNotFoundError
  | EOFError

definition is_RequestException :: "exn \<Rightarrow> bool" where
  "is_RequestException e = (e \<in> set [ConnectionError, HTTPError, JSONDecodeError])"

section \<open>The remote service and the local machine\<close>

text \<open>
  What \<open>requests.get/post/delete\<close> gives back: the call raises (no connection, a
  timeout), or a response arrives with a status code and a body. The body is \<open>None\<close>
  when \<open>response.json()\<close> cannot decode it.
\<close>

datatype 'b http = Transport_failure | Response nat "'b option"

text \<open>\<open>response.raise_for_status()\<close> raises \<open>HTTPError\<close> for 4xx and 5xx.\<close>

definition raise_for_status :: "nat \<Rightarrow> bool" where
  "raise_for_status status_code = (400 \<le> status_code \<and> status_code < 600)"

text \<open>
  The embedded \<open>user\<close> dictionary of one entry of a page; \<open>None\<close> is a missing key.
  The values the remote puts under the five keys are taken to be of their kind, a number
  and four strings: the client copies them and decides nothing on them.
\<close>

record api_user =
  u_fid :: "int option"
  u_username :: "string option"
  u_display_name :: "string option"
  u_pfp_url :: "string option"
  u_custody_address :: "string option"

text \<open>
  A member of a dictionary on which the client goes on with \<open>.get\<close>: the key is
  missing; or its value is no dictionary (\<open>null\<close>, a number, a string, a list), on
  which \<open>.get\<close> raises \<open>AttributeError\<close>; or its value is a dictionary.
\<close>

datatype 'a field = Missing | NotDict | Dict 'a

text \<open>
  One element of \<open>users_data\<close> as the body of the \<open>for\<close> loop takes it: a
  dictionary, with its member \<open>user\<close>; a string or a list, on which
  \<open>"user" in user_item\<close> looks for a part or for an element and
  \<open>user_item["user"]\<close> raises \<open>TypeError\<close>; or \<open>null\<close>, a number or a boolean,
  on which \<open>in\<close> itself raises \<open>TypeError\<close>.
\<close>

datatype item =
    ItemDict "api_user field"
  | ItemStr string
  | ItemList "json list"
  | ItemOther

text \<open>
  The decoded body of a page of \<open>/following/\<close>. \<open>users\<close> is
  \<open>data.get("users", [])\<close> as the \<open>for\<close> statement takes it: \<open>None\<close> when the
  value cannot be iterated (\<open>null\<close>, a number, a boolean), and else its elements, which
  are none for a missing key, the characters of a string and the keys of a dictionary.
  \<open>next_member\<close> is the member \<open>next\<close>, a dictionary being read as the value of
  its \<open>.get("cursor")\<close>, \<open>JNull\<close> where the key is missing. A body that is no
  dictionary has no \<open>.get\<close>.
\<close>

record page =
  users :: "item list option"
  next_member :: "json field"

datatype body = Not_object | Object page

text \<open>The dictionaries \<open>get_following_list\<close> builds.\<close>

record account =
  fid :: "int option"
  username :: string
  display_name :: string
  pfp_url :: string
  custody_address :: string

datatype request =
    GetSigner string
  | GetFollowing int "json option"
  | DeleteFollow "int option"
  | PostFollow "int option"

datatype direction = Unfollow | Follow

text \<open>
  The environment of one run. A reply is a function of the number of requests already
  sent: the client is deterministic, so within a run this is every behaviour a remote
  can show. \<open>run_timestamp\<close> is \<open>datetime.now().strftime(...)\<close> at the start of
  \<open>main\<close>, \<open>row_time i\<close> is \<open>datetime.now().isoformat()\<close> when entry \<open>i\<close> is
  saved, \<open>writable\<close> tells whether \<open>open(name, 'a')\<close> succeeds, and \<open>recent_csv\<close>
  is the newest file that \<open>glob\<close> finds for an identity.
\<close>

record env =
  api_key :: "string option"
  signer_uuid :: "string option"
  signer_reply :: "nat \<Rightarrow> int option http"
  page_reply :: "nat \<Rightarrow> body http"
  mutate_reply :: "nat \<Rightarrow> json http"
  run_timestamp :: string
  row_time :: "nat \<Rightarrow> string"
  writable :: "string \<Rightarrow> bool"
  recent_csv :: "int \<Rightarrow> string option"

text \<open>
  What a run changes: the requests \<open>sent\<close>, the client operations \<open>invoked\<close> (each
  is announced on the logger, dry run or not), the lines of standard input not read
  yet, the number of \<open>input()\<close> calls made, and the record files (a file is its
  list of rows, a row its list of fields: the rows \<open>csv.writer\<close> is given and
  \<open>csv.reader\<close> gives back). Log files have names of their own and are not part of
  \<open>files\<close>.
\<close>

record world =
  sent :: "request list"
  invoked :: "(direction \<times> int option \<times> bool) list"
  stdin :: "string list"
  prompts :: nat
  files :: "string \<Rightarrow> string list list option"

section \<open>farcaster\_api.py\<close>

text \<open>\<open>FarcasterAPI.__init__\<close>: both credentials must be set and not empty.\<close>

definition FarcasterAPI :: "env \<Rightarrow> exn + string" where
  "FarcasterAPI e =
     (if api_key e = None \<or> api_key e = Some [] then Inl ValueError
      else case signer_uuid e of
             None \<Rightarrow> Inl ValueError
           | Some s \<Rightarrow> if s = [] then Inl ValueError else Inr s)"

text \<open>
  The first two lines of the \<open>try\<close> block under
  \<open>if response.status_code in [400, 409]\<close>: \<open>error_data = response.json()\<close> and
  \<open>error_message = error_data.get('message', '').lower()\<close>. \<open>.get\<close> exists on a
  dictionary only and \<open>.lower\<close> on a string only.
\<close>

definition error_message :: "json option \<Rightarrow> exn + string" where
  "error_message body =
     (case body of
        None \<Rightarrow> Inl JSONDecodeError
      | Some (JObj members) \<Rightarrow>
          (case (case map_of members ''message'' of None \<Rightarrow> JStr [] | Some v \<Rightarrow> v) of
             JStr m \<Rightarrow> Inr (py_lower m)
           | _ \<Rightarrow> Inl AttributeError)
      | Some _ \<Rightarrow> Inl AttributeError)"

text \<open>
  \<open>unfollow_user\<close> after \<open>requests.delete\<close> has returned a response. The bare
  \<open>except: pass\<close> swallows whatever the inner block raises.
\<close>

definition unfollow_response :: "nat \<Rightarrow> json option \<Rightarrow> exn + bool" where
  "unfollow_response status_code body =
     (if status_code \<in> set [400, 409]
         \<and> (case error_message body of
               Inl x \<Rightarrow> False
             | Inr m \<Rightarrow> py_in ''not following'' m \<or> py_in ''not followed'' m)
      then Inr True
      else if raise_for_status status_code then Inl HTTPError
      else Inr True)"

definition unfollow_user :: "env \<Rightarrow> int option \<Rightarrow> bool \<Rightarrow> world \<Rightarrow> (exn + bool) \<times> world" where
  "unfollow_user e target_fid dry_run w =
     (let w0 = w\<lparr>invoked := invoked w @ [(Unfollow, target_fid, dry_run)]\<rparr> in
      if dry_run then (Inr True, w0)
      else
        let w1 = w0\<lparr>sent := sent w0 @ [DeleteFollow target_fid]\<rparr> in
        case (case mutate_reply e (length (sent w0)) of
                Transport_failure \<Rightarrow> Inl ConnectionError
              | Response status_code body \<Rightarrow> unfollow_response status_code body) of
          Inl x \<Rightarrow> if is_RequestException x then (Inr False, w1) else (Inl x, w1)
        | Inr b \<Rightarrow> (Inr b, w1))"

definition follow_response :: "nat \<Rightarrow> json option \<Rightarrow> exn + bool" where
  "follow_response status_code body =
     (if status_code \<in> set [400, 409]
         \<and> (case error_message body of
               Inl x \<Rightarrow> False
             | Inr m \<Rightarrow> py_in ''already following'' m \<or> py_in ''already followed'' m)
      then Inr True
      else if raise_for_status status_code then Inl HTTPError
      else Inr True)"

definition follow_user :: "env \<Rightarrow> int option \<Rightarrow> bool \<Rightarrow> world \<Rightarrow> (exn + bool) \<times> world" where
  "follow_user e target_fid dry_run w =
     (let w0 = w\<lparr>invoked := invoked w @ [(Follow, target_fid, dry_run)]\<rparr> in
      if dry_run then (Inr True, w0)
      else
        let w1 = w0\<lparr>sent := sent w0 @ [PostFollow target_fid]\<rparr> in
        case (case mutate_reply e (length (sent w0)) of
                Transport_failure \<Rightarrow> Inl ConnectionError
              | Response status_code body \<Rightarrow> follow_response status_code body) of
          Inl x \<Rightarrow> if is_RequestException x then (Inr False, w1) else (Inl x, w1)
        | Inr b \<Rightarrow> (Inr b, w1))"

text \<open>
  \<open>get_my_fid\<close>: the identity of the signer, \<open>None\<close> on any request failure, on a
  body without \<open>fid\<close> and on an empty body.
\<close>

definition get_my_fid :: "env \<Rightarrow> string \<Rightarrow> world \<Rightarrow> int option \<times> world" where
  "get_my_fid e signer w =
     (let w1 = w\<lparr>sent := sent w @ [GetSigner signer]\<rparr> in
      case signer_reply e (length (sent w)) of
        Transport_failure \<Rightarrow> (None, w1)
      | Response status_code body \<Rightarrow>
          if raise_for_status status_code then (None, w1)
          else (case body of None \<Rightarrow> (None, w1) | Some signer_fid \<Rightarrow> (signer_fid, w1)))"

text \<open>
  The \<open>for user_item in users_data\<close> loop: an entry without \<open>user\<close> is skipped,
  \<open>user.get("fid")\<close> is \<open>None\<close> for a missing key and the four names default to
  the empty string. What the body raises leaves the loop.
\<close>

definition get_default :: "'a option \<Rightarrow> 'a \<Rightarrow> 'a" where
  "get_default v d = (case v of None \<Rightarrow> d | Some x \<Rightarrow> x)"

fun extract_users :: "item list \<Rightarrow> account list \<Rightarrow> exn + account list" where
  "extract_users [] all_users = Inr all_users"
| "extract_users (user_item # users_data) all_users =
     (case user_item of
        ItemDict Missing \<Rightarrow> extract_users users_data all_users
      | ItemDict NotDict \<Rightarrow> Inl AttributeError
      | ItemDict (Dict user) \<Rightarrow>
          extract_users users_data
            (all_users @
              [\<lparr>fid = u_fid user,
                username = get_default (u_username user) [],
                display_name = get_default (u_display_name user) [],
                pfp_url = get_default (u_pfp_url user) [],
                custody_address = get_default (u_custody_address user) []\<rparr>])
      | ItemStr s \<Rightarrow>
          if py_in ''user'' s then Inl TypeError else extract_users users_data all_users
      | ItemList xs \<Rightarrow>
          if JStr ''user'' \<in> set xs then Inl TypeError
          else extract_users users_data all_users
      | ItemOther \<Rightarrow> Inl TypeError)"

text \<open>
  \<open>data.get("next", {}).get("cursor")\<close>; Python's \<open>None\<close> is \<open>JNull\<close>. The truth
  value of a cursor: \<open>null\<close>, \<open>false\<close>, zero and what is empty are false.
\<close>

definition next_cursor :: "page \<Rightarrow> exn + json" where
  "next_cursor data =
     (case next_member data of
        Missing \<Rightarrow> Inr JNull
      | NotDict \<Rightarrow> Inl AttributeError
      | Dict c \<Rightarrow> Inr c)"

definition truthy :: "json \<Rightarrow> bool" where
  "truthy c =
     (case c of
        JNull \<Rightarrow> False
      | JBool b \<Rightarrow> b
      | JNum n \<Rightarrow> n \<noteq> 0
      | JStr s \<Rightarrow> s \<noteq> []
      | JArr xs \<Rightarrow> xs \<noteq> []
      | JObj members \<Rightarrow> members \<noteq> [])"

text \<open>
  The \<open>while True\<close> loop of \<open>get_following_list\<close>. It has no bound of its own, so
  the result is an option: \<open>None\<close> when the loop never leaves. An exception leaves the
  function: the handler takes a \<open>RequestException\<close> only, logs it and raises it again.
\<close>

partial_function (option) following_loop ::
  "env \<Rightarrow> int \<Rightarrow> json \<Rightarrow> account list \<Rightarrow> world \<Rightarrow> ((exn + account list) \<times> world) option" where
  "following_loop e my_fid cursor all_users w =
     (let w1 = w\<lparr>sent := sent w @ [GetFollowing my_fid (if truthy cursor then Some cursor else None)]\<rparr> in
      case page_reply e (length (sent w)) of
        Transport_failure \<Rightarrow> Some (Inl ConnectionError, w1)
      | Response status_code decoded \<Rightarrow>
          if raise_for_status status_code then Some (Inl HTTPError, w1)
          else
            (case decoded of
               None \<Rightarrow> Some (Inl JSONDecodeError, w1)
             | Some Not_object \<Rightarrow> Some (Inl AttributeError, w1)
             | Some (Object data) \<Rightarrow>
                 (case users data of
                    None \<Rightarrow> Some (Inl TypeError, w1)
                  | Some users_data \<Rightarrow>
                      (case extract_users users_data all_users of
                         Inl x \<Rightarrow> Some (Inl x, w1)
                       | Inr extended \<Rightarrow>
                           (case next_cursor data of
                              Inl x \<Rightarrow> Some (Inl x, w1)
                            | Inr c \<Rightarrow>
                                if \<not> truthy c then Some (Inr extended, w1)
                                else following_loop e my_fid c extended w1)))))"

definition get_following_list ::
  "env \<Rightarrow> int \<Rightarrow> world \<Rightarrow> ((exn + account list) \<times> world) option" where
  "get_following_list e my_fid w = following_loop e my_fid JNull [] w"

section \<open>Integers as text\<close>

text \<open>\<open>str(n)\<close> for an integer: decimal digits, with a minus sign below zero.\<close>

definition digit_char :: "nat \<Rightarrow> char" where
  "digit_char d = ''0123456789'' ! d"

fun str_nat :: "nat \<Rightarrow> string" where
  "str_nat n = (if n < 10 then [digit_char n] else str_nat (n div 10) @ [digit_char (n mod 10)])"

declare str_nat.simps [simp del]

definition py_str :: "int \<Rightarrow> string" where
  "py_str i = (if i < 0 then CHR ''-'' # str_nat (nat (- i)) else str_nat (nat i))"

text \<open>
  \<open>int(s)\<close> for a string, in base ten: the blanks of C (tab, LF, VT, FF, CR, space)
  around it are dropped, one sign may lead, and single underscores may stand between
  digits. \<open>None\<close> is \<open>ValueError\<close>. Digits and blanks outside ASCII, which Python
  accepts too, and the bound on the number of digits that recent versions put on
  \<open>str\<close> and \<open>int\<close>, are not modelled.
\<close>

definition int_isspace :: "char \<Rightarrow> bool" where
  "int_isspace c = (c \<in> set [CHR 0x09, CHR 0x0A, CHR 0x0B, CHR 0x0C, CHR 0x0D, CHR 0x20])"

definition digit_value :: "char \<Rightarrow> nat option" where
  "digit_value c = map_of (zip ''0123456789'' [0, 1, 2, 3, 4, 5, 6, 7, 8, 9]) c"

fun more_digits :: "nat \<Rightarrow> string \<Rightarrow> nat option" where
  "more_digits acc [] = Some acc"
| "more_digits acc [c] =
     (case digit_value c of None \<Rightarrow> None | Some v \<Rightarrow> Some (acc * 10 + v))"
| "more_digits acc (c # d # cs) =
     (if c = CHR ''_''
      then (case digit_value d of None \<Rightarrow> None | Some v \<Rightarrow> more_digits (acc * 10 + v) cs)
      else (case digit_value c of None \<Rightarrow> None | Some v \<Rightarrow> more_digits (acc * 10 + v) (d # cs)))"

definition parse_nat :: "string \<Rightarrow> nat option" where
  "parse_nat s =
     (case s of
        [] \<Rightarrow> None
      | c # cs \<Rightarrow> (case digit_value c of None \<Rightarrow> None | Some v \<Rightarrow> more_digits v cs))"

definition py_int :: "string \<Rightarrow> int option" where
  "py_int s =
     (case strip_chars int_isspace s of
        [] \<Rightarrow> None
      | c # cs \<Rightarrow>
          if c = CHR ''-'' then map_option (\<lambda>n. - int n) (parse_nat cs)
          else if c = CHR ''+'' then map_option int (parse_nat cs)
          else map_option int (parse_nat (c # cs)))"

text \<open>A value as \<open>csv.writer\<close> writes it: \<open>None\<close> is the empty field.\<close>

definition csv_field :: "int option \<Rightarrow> string" where
  "csv_field v = (case v of None \<Rightarrow> [] | Some n \<Rightarrow> py_str n)"

section \<open>The scripts\<close>

text \<open>
  The command line of both scripts: \<open>--dry-run\<close>, \<open>--limit\<close> (unfollow only),
  \<open>--csv-file\<close> and \<open>--start-from\<close> (refollow only), and \<open>--delay\<close>, a number
  of seconds (the values \<open>nan\<close> and \<open>inf\<close> that \<open>float\<close> also reads are left out).
\<close>

record args =
  dry_run :: bool
  delay :: real
  limit :: "int option"
  csv_file :: "string option"
  start_from :: int

text \<open>The slices \<open>xs[:n]\<close> and \<open>xs[n:]\<close>; a negative \<open>n\<close> counts from the end.\<close>

definition slice_to :: "int \<Rightarrow> 'a list \<Rightarrow> 'a list" where
  "slice_to n xs = (if 0 \<le> n then take (nat n) xs else take (length xs - nat (- n)) xs)"

definition slice_from :: "int \<Rightarrow> 'a list \<Rightarrow> 'a list" where
  "slice_from n xs = (if 0 \<le> n then drop (nat n) xs else drop (length xs - nat (- n)) xs)"

text \<open>\<open>time.sleep(secs)\<close> raises \<open>ValueError\<close> for a negative length.\<close>

definition time_sleep :: "real \<Rightarrow> exn option" where
  "time_sleep secs = (if secs < 0 then Some ValueError else None)"

text \<open>
  \<open>confirm_action\<close>, the same in both scripts: it asks until the answer is one of
  \<open>y\<close>, \<open>yes\<close>, \<open>n\<close>, \<open>no\<close>; \<open>input()\<close> raises \<open>EOFError\<close> at the end of
  standard input.
\<close>

fun confirm_loop :: "string list \<Rightarrow> nat \<Rightarrow> (exn + bool) \<times> string list \<times> nat" where
  "confirm_loop [] n = (Inl EOFError, [], Suc n)"
| "confirm_loop (line # rest) n =
     (let response = py_strip (py_lower line) in
      if response \<in> set [''y'', ''yes''] then (Inr True, rest, Suc n)
      else if response \<in> set [''n'', ''no''] then (Inr False, rest, Suc n)
      else confirm_loop rest (Suc n))"

definition confirm_action :: "world \<Rightarrow> (exn + bool) \<times> world" where
  "confirm_action w =
     (case confirm_loop (stdin w) (prompts w) of
        (r, rest, n) \<Rightarrow> (r, w\<lparr>stdin := rest, prompts := n\<rparr>))"

subsection \<open>unfollow\_all.py\<close>

definition fieldnames :: "string list" where
  "fieldnames = [''fid'', ''username'', ''display_name'', ''unfollowed_at'']"

definition record_file :: "int \<Rightarrow> string \<Rightarrow> string" where
  "record_file my_fid timestamp =
     ''data/unfollowed_users_'' @ py_str my_fid @ ''_'' @ timestamp @ ''.csv''"

text \<open>
  The row \<open>writer.writerow\<close> is given for entry \<open>i\<close>: the four values in the order
  of \<open>fieldnames\<close>.
\<close>

definition record_row :: "env \<Rightarrow> nat \<Rightarrow> account \<Rightarrow> string list" where
  "record_row e i user =
     [csv_field (fid user), username user, display_name user, row_time e i]"

text \<open>
  \<open>save_user_to_csv\<close>, called for entry \<open>i\<close>. The file is opened for appending and the
  header is written when the file did not exist before. When \<open>open\<close> raises, the
  handler runs \<open>logger.error\<close>; the module has no global \<open>logger\<close> (the one of
  \<open>main\<close> is local), so \<open>NameError\<close> leaves the function and its \<open>return None\<close>
  is never reached.
\<close>

definition save_user_to_csv ::
  "env \<Rightarrow> nat \<Rightarrow> account \<Rightarrow> int \<Rightarrow> string \<Rightarrow> string option \<Rightarrow> world \<Rightarrow> (exn + string option) \<times> world" where
  "save_user_to_csv e i user my_fid timestamp csv_filename w =
     (let name = (case csv_filename of None \<Rightarrow> record_file my_fid timestamp | Some f \<Rightarrow> f);
          file_exists = (files w name \<noteq> None)
      in if \<not> writable e name then (Inl NameError, w)
         else
           (Inr (Some name),
            w\<lparr>files := (files w)
                 (name \<mapsto> get_default (files w name) []
                            @ (if \<not> file_exists then [fieldnames] else [])
                            @ [record_row e i user])\<rparr>))"

text \<open>The lists and the file name that the loop of \<open>main\<close> carries.\<close>

record unfollow_state =
  successful_unfollows :: "account list"
  failed_unfollows :: "account list"
  csv_filename :: "string option"

text \<open>
  The body of \<open>for i, user in enumerate(following_users, 1)\<close>, where \<open>len\<close> is
  \<open>len(following_users)\<close>: the call, the two branches on its result, and the sleep
  after every entry but the last.
\<close>

definition unfollow_step ::
  "env \<Rightarrow> args \<Rightarrow> int \<Rightarrow> string \<Rightarrow> nat \<Rightarrow> nat \<Rightarrow> account \<Rightarrow> unfollow_state \<Rightarrow> world \<Rightarrow> (exn + unfollow_state) \<times> world" where
  "unfollow_step e a my_fid timestamp len i user st w =
     (case unfollow_user e (fid user) (dry_run a) w of
        (Inl x, w1) \<Rightarrow> (Inl x, w1)
      | (Inr success, w1) \<Rightarrow>
          (case (if success then
                   (case save_user_to_csv e i user my_fid timestamp (csv_filename st) w1 of
                      (Inl x, w2) \<Rightarrow> (Inl x, w2)
                    | (Inr name, w2) \<Rightarrow>
                        (Inr (st\<lparr>successful_unfollows := successful_unfollows st @ [user],
                                  csv_filename := name\<rparr>), w2))
                 else (Inr (st\<lparr>failed_unfollows := failed_unfollows st @ [user]\<rparr>), w1)) of
             (Inl x, w2) \<Rightarrow> (Inl x, w2)
           | (Inr st1, w2) \<Rightarrow>
               if i < len
               then (case time_sleep (delay a) of
                       Some x \<Rightarrow> (Inl x, w2)
                     | None \<Rightarrow> (Inr st1, w2))
               else (Inr st1, w2)))"

fun unfollow_loop ::
  "env \<Rightarrow> args \<Rightarrow> int \<Rightarrow> string \<Rightarrow> nat \<Rightarrow> nat \<Rightarrow> account list \<Rightarrow> unfollow_state \<Rightarrow> world \<Rightarrow> (exn + unfollow_state) \<times> world" where
  "unfollow_loop e a my_fid timestamp len i [] st w = (Inr st, w)"
| "unfollow_loop e a my_fid timestamp len i (user # rest) st w =
     (case unfollow_step e a my_fid timestamp len i user st w of
        (Inl x, w1) \<Rightarrow> (Inl x, w1)
      | (Inr st1, w1) \<Rightarrow> unfollow_loop e a my_fid timestamp len (Suc i) rest st1 w1)"

text \<open>
  The same loop in a process that is stopped when \<open>k\<close> entries have been processed:
  \<open>KeyboardInterrupt\<close>, which \<open>main\<close> catches to return 1, arrives as entry
  \<open>k + 1\<close> is about to start. A process that is killed there leaves the same files.
\<close>

fun unfollow_loop_interrupted ::
  "nat \<Rightarrow> env \<Rightarrow> args \<Rightarrow> int \<Rightarrow> string \<Rightarrow> nat \<Rightarrow> nat \<Rightarrow> account list \<Rightarrow> unfollow_state \<Rightarrow> world \<Rightarrow> (exn + unfollow_state) \<times> world" where
  "unfollow_loop_interrupted k e a my_fid timestamp len i [] st w = (Inr st, w)"
| "unfollow_loop_interrupted k e a my_fid timestamp len i (user # rest) st w =
     (if k < i then (Inl KeyboardInterrupt, w)
      else
        (case unfollow_step e a my_fid timestamp len i user st w of
           (Inl x, w1) \<Rightarrow> (Inl x, w1)
         | (Inr st1, w1) \<Rightarrow>
             unfollow_loop_interrupted k e a my_fid timestamp len (Suc i) rest st1 w1))"

text \<open>\<open>if args.limit: following_users = following_users[:args.limit]\<close>.\<close>

definition apply_limit :: "int option \<Rightarrow> 'a list \<Rightarrow> 'a list" where
  "apply_limit cap following_users =
     (case cap of
        None \<Rightarrow> following_users
      | Some n \<Rightarrow> if n = 0 then following_users else slice_to n following_users)"

definition unfollow_start :: unfollow_state where
  "unfollow_start = \<lparr>successful_unfollows = [], failed_unfollows = [], csv_filename = None\<rparr>"

text \<open>
  \<open>main\<close> of unfollow\_all.py, giving the exit status of the process. An exception
  of the constructor reaches a handler that uses \<open>logger\<close> before it is bound, so the
  process ends on the uncaught \<open>UnboundLocalError\<close> with status 1 as well.
\<close>

definition unfollow_main :: "env \<Rightarrow> args \<Rightarrow> world \<Rightarrow> (int \<times> world) option" where
  "unfollow_main e a w =
     (case FarcasterAPI e of
        Inl x \<Rightarrow> Some (1, w)
      | Inr signer \<Rightarrow>
          (case get_my_fid e signer w of
             (None, w1) \<Rightarrow> Some (1, w1)
           | (Some my_fid, w1) \<Rightarrow>
               if my_fid = 0 then Some (1, w1)
               else
                 (case get_following_list e my_fid w1 of
                    None \<Rightarrow> None
                  | Some (Inl x, w2) \<Rightarrow> Some (1, w2)
                  | Some (Inr fetched, w2) \<Rightarrow>
                      if fetched = [] then Some (0, w2)
                      else
                        let following_users = apply_limit (limit a) fetched in
                        (case confirm_action w2 of
                           (Inl x, w3) \<Rightarrow> Some (1, w3)
                         | (Inr confirmed, w3) \<Rightarrow>
                             if \<not> confirmed then Some (0, w3)
                             else
                               (case unfollow_loop e a my_fid (run_timestamp e)
                                       (length following_users) 1
                                       following_users unfollow_start w3 of
                                  (Inl x, w4) \<Rightarrow> Some (1, w4)
                                | (Inr st, w4) \<Rightarrow> Some (0, w4))))))"

subsection \<open>refollow\_all.py\<close>

text \<open>
  \<open>csv.DictReader\<close>: the first row gives the keys, empty rows after it are skipped,
  and each other row becomes a dictionary. A row shorter than the keys is filled with
  \<open>None\<close>; of two equal keys the later one wins. (The fields beyond the keys go
  under the key \<open>None\<close>, which no lookup of the script uses.)
\<close>

definition dict_of :: "string list \<Rightarrow> string list \<Rightarrow> string \<Rightarrow> string option option" where
  "dict_of keys row =
     map_of (rev (zip keys (map Some row @ replicate (length keys - length row) None)))"

definition DictReader :: "string list list \<Rightarrow> (string \<Rightarrow> string option option) list" where
  "DictReader rows =
     (case rows of
        [] \<Rightarrow> []
      | keys # rest \<Rightarrow> map (dict_of keys) (filter (\<lambda>r. r \<noteq> []) rest))"

text \<open>A loaded row. The three names are \<open>None\<close> when the row was too short.\<close>

record unfollowed =
  r_fid :: int
  r_username :: "string option"
  r_display_name :: "string option"
  r_unfollowed_at :: "string option"

text \<open>
  The dictionary built in \<open>users.append({...})\<close>: a missing key is \<open>KeyError\<close>,
  \<open>int(None)\<close> is \<open>TypeError\<close> and \<open>int\<close> of a string that is no number is
  \<open>ValueError\<close>.
\<close>

definition load_row :: "(string \<Rightarrow> string option option) \<Rightarrow> exn + unfollowed" where
  "load_row row =
     (case row ''fid'' of
        None \<Rightarrow> Inl KeyError
      | Some None \<Rightarrow> Inl TypeError
      | Some (Some s) \<Rightarrow>
          (case py_int s of
             None \<Rightarrow> Inl ValueError
           | Some n \<Rightarrow>
               (case row ''username'' of
                  None \<Rightarrow> Inl KeyError
                | Some un \<Rightarrow>
                    (case row ''display_name'' of
                       None \<Rightarrow> Inl KeyError
                     | Some dn \<Rightarrow>
                         (case row ''unfollowed_at'' of
                            None \<Rightarrow> Inl KeyError
                          | Some ua \<Rightarrow>
                              Inr \<lparr>r_fid = n, r_username = un, r_display_name = dn,
                                   r_unfollowed_at = ua\<rparr>)))))"

fun load_rows :: "(string \<Rightarrow> string option option) list \<Rightarrow> unfollowed list \<Rightarrow> exn + unfollowed list" where
  "load_rows [] loaded = Inr loaded"
| "load_rows (row # rest) loaded =
     (case load_row row of
        Inl x \<Rightarrow> Inl x
      | Inr u \<Rightarrow> load_rows rest (loaded @ [u]))"

text \<open>
  The branch \<open>if filename is None\<close> of \<open>load_users_from_csv\<close>: the newest record
  file of the caller's identity, \<open>None\<close> where the function returns \<open>None\<close>.
\<close>

definition find_recent :: "env \<Rightarrow> world \<Rightarrow> string option \<times> world" where
  "find_recent e w =
     (case FarcasterAPI e of
        Inl x \<Rightarrow> (None, w)
      | Inr signer \<Rightarrow>
          (case get_my_fid e signer w of
             (None, w1) \<Rightarrow> (None, w1)
           | (Some my_fid, w1) \<Rightarrow>
               if my_fid = 0 then (None, w1) else (recent_csv e my_fid, w1)))"

text \<open>
  \<open>load_users_from_csv\<close>: both handlers return \<open>None\<close>, so the result is the whole
  list or nothing.
\<close>

definition load_users_from_csv :: "env \<Rightarrow> string option \<Rightarrow> world \<Rightarrow> unfollowed list option \<times> world" where
  "load_users_from_csv e filename w =
     (case (case filename of None \<Rightarrow> find_recent e w | Some f \<Rightarrow> (Some f, w)) of
        (None, w1) \<Rightarrow> (None, w1)
      | (Some f, w1) \<Rightarrow>
          (case (case files w1 f of
                   None \<Rightarrow> Inl FileNotFoundError
                 | Some rows \<Rightarrow> load_rows (DictReader rows) []) of
             Inl x \<Rightarrow> (None, w1)
           | Inr loaded \<Rightarrow> (Some loaded, w1)))"

record refollow_state =
  successful_follows :: "unfollowed list"
  failed_follows :: "unfollowed list"

text \<open>The body of \<open>for i, user in enumerate(users, 1)\<close>, with \<open>len = len(users)\<close>.\<close>

definition refollow_step ::
  "env \<Rightarrow> args \<Rightarrow> nat \<Rightarrow> nat \<Rightarrow> unfollowed \<Rightarrow> refollow_state \<Rightarrow> world \<Rightarrow> (exn + refollow_state) \<times> world" where
  "refollow_step e a len i user st w =
     (case follow_user e (Some (r_fid user)) (dry_run a) w of
        (Inl x, w1) \<Rightarrow> (Inl x, w1)
      | (Inr success, w1) \<Rightarrow>
          let st1 = (if success
                     then st\<lparr>successful_follows := successful_follows st @ [user]\<rparr>
                     else st\<lparr>failed_follows := failed_follows st @ [user]\<rparr>) in
          if i < len
          then (case time_sleep (delay a) of
                  Some x \<Rightarrow> (Inl x, w1)
                | None \<Rightarrow> (Inr st1, w1))
          else (Inr st1, w1))"

fun refollow_loop ::
  "env \<Rightarrow> args \<Rightarrow> nat \<Rightarrow> nat \<Rightarrow> unfollowed list \<Rightarrow> refollow_state \<Rightarrow> world \<Rightarrow> (exn + refollow_state) \<times> world" where
  "refollow_loop e a len i [] st w = (Inr st, w)"
| "refollow_loop e a len i (user # rest) st w =
     (case refollow_step e a len i user st w of
        (Inl x, w1) \<Rightarrow> (Inl x, w1)
      | (Inr st1, w1) \<Rightarrow> refollow_loop e a len (Suc i) rest st1 w1)"

definition refollow_start :: refollow_state where
  "refollow_start = \<lparr>successful_follows = [], failed_follows = []\<rparr>"

text \<open>\<open>main\<close> of refollow\_all.py, giving the exit status of the process.\<close>

definition refollow_main :: "env \<Rightarrow> args \<Rightarrow> world \<Rightarrow> int \<times> world" where
  "refollow_main e a w =
     (case FarcasterAPI e of
        Inl x \<Rightarrow> (1, w)
      | Inr signer \<Rightarrow>
          (case get_my_fid e signer w of
             (None, w1) \<Rightarrow> (1, w1)
           | (Some my_fid, w1) \<Rightarrow>
               if my_fid = 0 then (1, w1)
               else
                 (case load_users_from_csv e (csv_file a) w1 of
                    (None, w2) \<Rightarrow> (1, w2)
                  | (Some loaded, w2) \<Rightarrow>
                      if loaded = [] then (1, w2)
                      else if 0 < start_from a \<and> int (length loaded) \<le> start_from a then (1, w2)
                      else
                        let users_left =
                              (if 0 < start_from a then slice_from (start_from a) loaded
                               else loaded) in
                        (case confirm_action w2 of
                           (Inl x, w3) \<Rightarrow> (1, w3)
                         | (Inr confirmed, w3) \<Rightarrow>
                             if \<not> confirmed then (0, w3)
                             else
                               (case refollow_loop e a (length users_left) 1 users_left
                                       refollow_start w3 of
                                  (Inl x, w4) \<Rightarrow> (1, w4)
                                | (Inr st, w4) \<Rightarrow> (0, w4))))))"

section \<open>Notions used by the properties\<close>

text \<open>
  The message of an error body names one of the phrases: the body is an object whose
  \<open>message\<close> is a string that contains a phrase, whatever the case of its letters.
\<close>

definition message_indicates :: "string list \<Rightarrow> json option \<Rightarrow> bool" where
  "message_indicates phrases body =
     (case body of
        Some (JObj members) \<Rightarrow>
          (case map_of members ''message'' of
             Some (JStr m) \<Rightarrow> list_ex (\<lambda>p. py_in p (py_lower m)) phrases
           | _ \<Rightarrow> False)
      | _ \<Rightarrow> False)"

text \<open>
  A run to try the properties on: valid credentials, the identity 5, an empty
  following list, every mutation answered with 200, and an operator who types \<open>y\<close>.
\<close>

definition example_env :: env where
  "example_env =
     \<lparr>api_key = Some ''key'', signer_uuid = Some ''signer'',
      signer_reply = (\<lambda>n. Response 200 (Some (Some 5))),
      page_reply = (\<lambda>n. Response 200 (Some (Object \<lparr>users = Some [], next_member = Missing\<rparr>))),
      mutate_reply = (\<lambda>n. Response 200 (Some (JObj []))),
      run_timestamp = ''20250101_120000'',
      row_time = (\<lambda>i. ''2025-01-01T12:00:00''),
      writable = (\<lambda>name. True),
      recent_csv = (\<lambda>my_fid. None)\<rparr>"

definition example_world :: world where
  "example_world = \<lparr>sent = [], invoked = [], stdin = [''y''], prompts = 0, files = Map.empty\<rparr>"

text \<open>
  A reply that carries a page: a response outside 4xx and 5xx whose body decodes to the
  page. \<open>serves e n pages\<close>: the requests number \<open>n\<close>, \<open>n + 1\<close>, ... are
  answered with the pages in order.
\<close>

definition page_served :: "body http \<Rightarrow> page \<Rightarrow> bool" where
  "page_served reply p =
     (case reply of
        Response status_code (Some (Object data)) \<Rightarrow>
          \<not> raise_for_status status_code \<and> data = p
      | _ \<Rightarrow> False)"

fun serves :: "env \<Rightarrow> nat \<Rightarrow> page list \<Rightarrow> bool" where
  "serves e n [] = True"
| "serves e n (p # ps) = (page_served (page_reply e n) p \<and> serves e (Suc n) ps)"

text \<open>
  A page of the regular shape: every entry is a dictionary whose \<open>user\<close>, where it
  has one, is a dictionary, and \<open>next\<close>, where the page has one, is a dictionary.
  The cursor of such a page is \<open>JNull\<close> when \<open>next\<close> or its \<open>cursor\<close> is missing
  or \<open>null\<close>.
\<close>

definition regular_item :: "item \<Rightarrow> bool" where
  "regular_item user_item =
     (case user_item of
        ItemDict Missing \<Rightarrow> True
      | ItemDict (Dict user) \<Rightarrow> True
      | _ \<Rightarrow> False)"

definition regular :: "page \<Rightarrow> bool" where
  "regular p =
     ((case users p of None \<Rightarrow> False | Some items \<Rightarrow> list_all regular_item items)
      \<and> next_member p \<noteq> NotDict)"

definition cursor_of :: "page \<Rightarrow> json" where
  "cursor_of p = (case next_member p of Dict c \<Rightarrow> c | _ \<Rightarrow> JNull)"

text \<open>
  \<open>pages_users\<close> is the concatenation, page after page and entry after entry, of the
  accounts of the entries that have a \<open>user\<close>.
\<close>

definition account_of :: "api_user \<Rightarrow> account" where
  "account_of user =
     \<lparr>fid = u_fid user,
      username = get_default (u_username user) [],
      display_name = get_default (u_display_name user) [],
      pfp_url = get_default (u_pfp_url user) [],
      custody_address = get_default (u_custody_address user) []\<rparr>"

definition item_users :: "item \<Rightarrow> account list" where
  "item_users user_item =
     (case user_item of ItemDict (Dict user) \<Rightarrow> [account_of user] | _ \<Rightarrow> [])"

definition pages_users :: "page list \<Rightarrow> account list" where
  "pages_users ps =
     concat (map (\<lambda>p. concat (map item_users (get_default (users p) []))) ps)"

text \<open>
  A reply on which \<open>unfollow_user\<close>, respectively \<open>follow_user\<close>, returns \<open>True\<close>.
\<close>

definition unfollow_accepted :: "json http \<Rightarrow> bool" where
  "unfollow_accepted reply =
     (case reply of
        Transport_failure \<Rightarrow> False
      | Response sc body \<Rightarrow>
          sc \<in> {400, 409} \<and> message_indicates [''not following'', ''not followed''] body
          \<or> \<not> raise_for_status sc)"

definition follow_accepted :: "json http \<Rightarrow> bool" where
  "follow_accepted reply =
     (case reply of
        Transport_failure \<Rightarrow> False
      | Response sc body \<Rightarrow>
          sc \<in> {400, 409}
            \<and> message_indicates [''already following'', ''already followed''] body
          \<or> \<not> raise_for_status sc)"

text \<open>
  The entries, each with its number, for which the call of \<open>unfollow_user\<close> returns
  \<open>True\<close> when the entries are called one after the other from the world \<open>w\<close> on,
  the first of them being number \<open>i\<close>.
\<close>

fun succeeded :: "env \<Rightarrow> args \<Rightarrow> nat \<Rightarrow> account list \<Rightarrow> world \<Rightarrow> (nat \<times> account) list" where
  "succeeded e a i [] w = []"
| "succeeded e a i (user # rest) w =
     (if fst (unfollow_user e (fid user) (dry_run a) w) = Inr True then [(i, user)] else [])
     @ succeeded e a (Suc i) rest (snd (unfollow_user e (fid user) (dry_run a) w))"

text \<open>
  Rows appended to a record file, with the header first when the file is new; no row,
  no change.
\<close>

definition append_rows ::
  "string \<Rightarrow> string list list \<Rightarrow> (string \<Rightarrow> string list list option) \<Rightarrow> string \<Rightarrow> string list list option" where
  "append_rows name rows fs =
     (if rows = [] then fs
      else fs(name \<mapsto> get_default (fs name) []
                       @ (if fs name = None then [fieldnames] else []) @ rows))"

text \<open>The content of a file, empty when there is no file.\<close>

definition content :: "world \<Rightarrow> string \<Rightarrow> string list list" where
  "content w name = get_default (files w name) []"

text \<open>
  A row whose id field is no number: under the keys of the file the row has a field
  \<open>fid\<close>, and \<open>int\<close> rejects it.
\<close>

definition malformed :: "string list \<Rightarrow> string list \<Rightarrow> bool" where
  "malformed keys row =
     (row \<noteq> [] \<and>
      (case dict_of keys row ''fid'' of
         Some (Some s) \<Rightarrow> py_int s = None
       | _ \<Rightarrow> False))"

text \<open>A record file of ten rows, and what loading it gives.\<close>

definition example_entries :: "(int \<times> string) list" where
  "example_entries =
     [(1, ''a''), (2, ''b''), (3, ''c''), (4, ''d''), (5, ''e''),
      (6, ''f''), (7, ''g''), (8, ''h''), (9, ''i''), (10, ''j'')]"

definition example_file :: "string list list" where
  "example_file =
     fieldnames #
     [[''1'', ''a'', ''a'', ''t''], [''2'', ''b'', ''b'', ''t''], [''3'', ''c'', ''c'', ''t''],
      [''4'', ''d'', ''d'', ''t''], [''5'', ''e'', ''e'', ''t''], [''6'', ''f'', ''f'', ''t''],
      [''7'', ''g'', ''g'', ''t''], [''8'', ''h'', ''h'', ''t''], [''9'', ''i'', ''i'', ''t''],
      [''10'', ''j'', ''j'', ''t'']]"

definition example_loaded :: "unfollowed list" where
  "example_loaded =
     map (\<lambda>(n, h). \<lparr>r_fid = n, r_username = Some h, r_display_name = Some h,
                     r_unfollowed_at = Some ''t''\<rparr>)
       example_entries"

definition example_args :: args where
  "example_args =
     \<lparr>dry_run = False, delay = 1, limit = None, csv_file = Some ''r.csv'', start_from = 0\<rparr>"

text \<open>A remote whose following list is one page of two accounts.\<close>

definition example_page :: page where
  "example_page =
     \<lparr>users = Some
        [ItemDict (Dict \<lparr>u_fid = Some 1, u_username = Some ''a'', u_display_name = None,
                          u_pfp_url = None, u_custody_address = None\<rparr>),
         ItemDict (Dict \<lparr>u_fid = Some 2, u_username = Some ''b'', u_display_name = None,
                          u_pfp_url = None, u_custody_address = None\<rparr>)],
      next_member = Missing\<rparr>"

definition example_accounts :: "account list" where
  "example_accounts =
     [\<lparr>fid = Some 1, username = ''a'', display_name = [], pfp_url = [],
        custody_address = []\<rparr>,
      \<lparr>fid = Some 2, username = ''b'', display_name = [], pfp_url = [],
        custody_address = []\<rparr>]"

definition following_env :: env where
  "following_env =
     example_env\<lparr>page_reply := \<lambda>n. Response 200 (Some (Object example_page))\<rparr>"

text \<open>The rows written for a list of numbered entries.\<close>

definition record_rows :: "env \<Rightarrow> (nat \<times> account) list \<Rightarrow> string list list" where
  "record_rows e entries = map (\<lambda>(i, u). record_row e i u) entries"

section \<open>Properties of the client\<close>

lemma unfollow_response_eq:
  "unfollow_response sc body =
     (if sc \<in> {400, 409} \<and> message_indicates [''not following'', ''not followed''] body
      then Inr True
      else if raise_for_status sc then Inl HTTPError else Inr True)"
  by (auto simp: unfollow_response_def message_indicates_def error_message_def py_lower_def
      split: option.splits json.splits sum.splits)

lemma follow_response_eq:
  "follow_response sc body =
     (if sc \<in> {400, 409}
         \<and> message_indicates [''already following'', ''already followed''] body
      then Inr True
      else if raise_for_status sc then Inl HTTPError else Inr True)"
  by (auto simp: follow_response_def message_indicates_def error_message_def py_lower_def
      split: option.splits json.splits sum.splits)





text \<open>
  C7, the dry run: with \<open>dry_run\<close> set, \<open>unfollow_user\<close> and \<open>follow_user\<close> return
  \<open>True\<close> and send no request, whatever the target and the remote.
\<close>

theorem dry_run_no_op:
  "fst (unfollow_user e t True w) = Inr True
   \<and> sent (snd (unfollow_user e t True w)) = sent w
   \<and> fst (follow_user e t True w) = Inr True
   \<and> sent (snd (follow_user e t True w)) = sent w"
  by (simp add: unfollow_user_def follow_user_def Let_def)

subsection \<open>Pagination\<close>

lemma extract_users_regular:
  "list_all regular_item items \<Longrightarrow>
   extract_users items acc = Inr (acc @ concat (map item_users items))"
proof (induction items arbitrary: acc)
  case Nil
  show ?case by simp
next
  case (Cons x items)
  from Cons.prems have r: "regular_item x" and rest: "list_all regular_item items"
    by simp_all
  from r consider "x = ItemDict Missing" | u where "x = ItemDict (Dict u)"
    by (auto simp: regular_item_def split: item.splits field.splits)
  then show ?case
  proof cases
    case 1
    then show ?thesis
      using Cons.IH [OF rest, of acc] by (simp add: item_users_def)
  next
    case 2
    have s: "extract_users (x # items) acc = extract_users items (acc @ [account_of u])"
      by (simp add: 2 account_of_def)
    have i: "item_users x = [account_of u]"
      by (simp add: 2 item_users_def)
    show ?thesis
      unfolding s using Cons.IH [OF rest, of "acc @ [account_of u]"] by (simp add: i)
  qed
qed

lemma page_servedD:
  "page_served r p \<Longrightarrow> \<exists>sc. r = Response sc (Some (Object p)) \<and> \<not> raise_for_status sc"
  by (auto simp: page_served_def split: http.splits option.splits body.splits)

lemma regular_next_cursor: "regular p \<Longrightarrow> next_cursor p = Inr (cursor_of p)"
  by (auto simp: regular_def next_cursor_def cursor_of_def split: field.splits)

lemma regular_users:
  "regular p \<Longrightarrow> \<exists>items. users p = Some items \<and> list_all regular_item items"
  by (auto simp: regular_def split: option.splits)

text \<open>One turn of the loop on a body that decodes to a dictionary.\<close>

lemma following_loop_turn:
  assumes "page_reply e (length (sent w)) = Response sc (Some (Object data))"
    and "\<not> raise_for_status sc"
  shows "following_loop e my_fid cursor acc w =
     (case users data of
        None \<Rightarrow>
          Some (Inl TypeError,
                w\<lparr>sent := sent w @ [GetFollowing my_fid (if truthy cursor then Some cursor else None)]\<rparr>)
      | Some items \<Rightarrow>
          (case extract_users items acc of
             Inl x \<Rightarrow>
               Some (Inl x,
                     w\<lparr>sent := sent w @ [GetFollowing my_fid (if truthy cursor then Some cursor else None)]\<rparr>)
           | Inr extended \<Rightarrow>
               (case next_cursor data of
                  Inl x \<Rightarrow>
                    Some (Inl x,
                          w\<lparr>sent := sent w @ [GetFollowing my_fid (if truthy cursor then Some cursor else None)]\<rparr>)
                | Inr c \<Rightarrow>
                    if \<not> truthy c
                    then Some (Inr extended,
                               w\<lparr>sent := sent w @ [GetFollowing my_fid (if truthy cursor then Some cursor else None)]\<rparr>)
                    else following_loop e my_fid c extended
                           (w\<lparr>sent := sent w @ [GetFollowing my_fid (if truthy cursor then Some cursor else None)]\<rparr>))))"
  by (subst following_loop.simps) (simp add: assms Let_def)

lemma following_loop_last:
  assumes "page_served (page_reply e (length (sent w))) l" and "regular l"
    and "\<not> truthy (cursor_of l)"
  shows "following_loop e my_fid cursor acc w =
           Some (Inr (acc @ pages_users [l]),
                 w\<lparr>sent := sent w @ [GetFollowing my_fid (if truthy cursor then Some cursor else None)]\<rparr>)"
proof -
  from page_servedD [OF assms(1)] obtain sc where
    r: "page_reply e (length (sent w)) = Response sc (Some (Object l))"
    and ok: "\<not> raise_for_status sc"
    by blast
  from regular_users [OF assms(2)] obtain items where
    i: "users l = Some items" "list_all regular_item items" by blast
  show ?thesis
    by (simp add: following_loop_turn [OF r ok] i extract_users_regular
        regular_next_cursor [OF assms(2)] assms(3) pages_users_def get_default_def)
qed

lemma following_loop_next:
  assumes "page_served (page_reply e (length (sent w))) p" and "regular p"
    and "truthy (cursor_of p)"
  shows "following_loop e my_fid cursor acc w =
           following_loop e my_fid (cursor_of p) (acc @ pages_users [p])
             (w\<lparr>sent := sent w @ [GetFollowing my_fid (if truthy cursor then Some cursor else None)]\<rparr>)"
proof -
  from page_servedD [OF assms(1)] obtain sc where
    r: "page_reply e (length (sent w)) = Response sc (Some (Object p))"
    and ok: "\<not> raise_for_status sc"
    by blast
  from regular_users [OF assms(2)] obtain items where
    i: "users p = Some items" "list_all regular_item items" by blast
  show ?thesis
    by (simp add: following_loop_turn [OF r ok] i extract_users_regular
        regular_next_cursor [OF assms(2)] assms(3) pages_users_def get_default_def)
qed

lemma pages_users_Cons: "pages_users (p # ps) = pages_users [p] @ pages_users ps"
  by (simp add: pages_users_def)

lemma following_loop_pages:
  "serves e (length (sent w)) (ps @ [l]) \<Longrightarrow> \<forall>p \<in> set (ps @ [l]). regular p \<Longrightarrow>
   \<forall>p \<in> set ps. truthy (cursor_of p) \<Longrightarrow> \<not> truthy (cursor_of l) \<Longrightarrow>
   \<exists>w'. following_loop e my_fid cursor acc w = Some (Inr (acc @ pages_users (ps @ [l])), w')
        \<and> length (sent w') = length (sent w) + length ps + 1"
proof (induction ps arbitrary: w cursor acc)
  case Nil
  then show ?case
    by (simp add: following_loop_last)
next
  case (Cons p ps)
  let ?w1 = "w\<lparr>sent := sent w @ [GetFollowing my_fid (if truthy cursor then Some cursor else None)]\<rparr>"
  from Cons.prems have p: "page_served (page_reply e (length (sent w))) p"
    and rest: "serves e (length (sent ?w1)) (ps @ [l])"
    and rp: "regular p" and rps: "\<forall>p \<in> set (ps @ [l]). regular p"
    and tp: "truthy (cursor_of p)" and tps: "\<forall>p \<in> set ps. truthy (cursor_of p)"
    by simp_all
  from Cons.IH [OF rest rps tps Cons.prems(4), of "cursor_of p" "acc @ pages_users [p]"]
  show ?case
    by (auto simp: following_loop_next [OF p rp tp] pages_users_Cons [of p "ps @ [l]"])
qed

text \<open>
  C3, as the code has it. The pages served are \<open>ps @ [l]\<close>, each of the regular
  shape (a dictionary whose entries are dictionaries with no \<open>user\<close> or a dictionary
  under it, and with no \<open>next\<close> or a dictionary under it); every page of \<open>ps\<close> has
  a cursor that Python takes as true, and the cursor of \<open>l\<close> is missing, \<open>null\<close>
  or empty. Then \<open>get_following_list\<close> returns, after one request per page, the
  accounts of the entries that have a \<open>user\<close>, in the order of the pages and, within
  a page, of its entries; an entry without \<open>user\<close> gives nothing.
\<close>

theorem pagination_concat:
  assumes "serves e (length (sent w)) (ps @ [l])"
    and "\<forall>p \<in> set (ps @ [l]). regular p"
    and "\<forall>p \<in> set ps. truthy (cursor_of p)"
    and "\<not> truthy (cursor_of l)"
  shows "\<exists>w'. get_following_list e my_fid w = Some (Inr (pages_users (ps @ [l])), w')
           \<and> length (sent w') = length (sent w) + length (ps @ [l])"
  using following_loop_pages [OF assms, of my_fid JNull "[]"]
  by (auto simp: get_following_list_def)

theorem pagination_concat_witness:
  "\<exists>w'. get_following_list
          (example_env\<lparr>page_reply := \<lambda>n.
             if n = 0
             then Response 200 (Some (Object \<lparr>users = Some
                    [ItemDict (Dict \<lparr>u_fid = Some 1, u_username = Some ''a'',
                       u_display_name = None, u_pfp_url = None, u_custody_address = None\<rparr>),
                     ItemDict Missing],
                    next_member = Dict (JStr ''c1'')\<rparr>))
             else Response 200 (Some (Object \<lparr>users = Some
                    [ItemDict (Dict \<lparr>u_fid = Some 2, u_username = Some ''b'',
                       u_display_name = None, u_pfp_url = None, u_custody_address = None\<rparr>)],
                    next_member = Dict JNull\<rparr>))\<rparr>)
          5 example_world =
        Some (Inr [\<lparr>fid = Some 1, username = ''a'', display_name = [], pfp_url = [],
                     custody_address = []\<rparr>,
                   \<lparr>fid = Some 2, username = ''b'', display_name = [], pfp_url = [],
                     custody_address = []\<rparr>], w')
        \<and> length (sent w') = 2"
  using pagination_concat [of
      "example_env\<lparr>page_reply := \<lambda>n.
             if n = 0
             then Response 200 (Some (Object \<lparr>users = Some
                    [ItemDict (Dict \<lparr>u_fid = Some 1, u_username = Some ''a'',
                       u_display_name = None, u_pfp_url = None, u_custody_address = None\<rparr>),
                     ItemDict Missing],
                    next_member = Dict (JStr ''c1'')\<rparr>))
             else Response 200 (Some (Object \<lparr>users = Some
                    [ItemDict (Dict \<lparr>u_fid = Some 2, u_username = Some ''b'',
                       u_display_name = None, u_pfp_url = None, u_custody_address = None\<rparr>)],
                    next_member = Dict JNull\<rparr>))\<rparr>"
      example_world
      "[\<lparr>users = Some
                    [ItemDict (Dict \<lparr>u_fid = Some 1, u_username = Some ''a'',
                       u_display_name = None, u_pfp_url = None, u_custody_address = None\<rparr>),
                     ItemDict Missing],
                    next_member = Dict (JStr ''c1'')\<rparr>]"
      "\<lparr>users = Some
                    [ItemDict (Dict \<lparr>u_fid = Some 2, u_username = Some ''b'',
                       u_display_name = None, u_pfp_url = None, u_custody_address = None\<rparr>)],
                    next_member = Dict JNull\<rparr>"
      5]
  by (simp add: example_env_def example_world_def page_served_def raise_for_status_def
      truthy_def cursor_of_def regular_def regular_item_def pages_users_def item_users_def
      account_of_def get_default_def numeral_2_eq_2)

text \<open>
  Three runs in which only the last page served lacks a cursor. A first page whose
  cursor is the empty string ends the loop, and the second page is never asked for. A
  page whose \<open>next\<close> is \<open>null\<close> has no cursor, and the fetch raises
  \<open>AttributeError\<close>. An entry whose \<open>user\<close> is \<open>null\<close> has no user dictionary,
  and the fetch raises \<open>AttributeError\<close> where the entry should be skipped.
\<close>

theorem pagination_concat_counterexample:
  "serves
     (example_env\<lparr>page_reply := \<lambda>n.
        if n = 0
        then Response 200 (Some (Object \<lparr>users = Some
               [ItemDict (Dict \<lparr>u_fid = Some 1, u_username = Some ''a'',
                  u_display_name = None, u_pfp_url = None, u_custody_address = None\<rparr>)],
               next_member = Dict (JStr [])\<rparr>))
        else Response 200 (Some (Object \<lparr>users = Some
               [ItemDict (Dict \<lparr>u_fid = Some 2, u_username = Some ''b'',
                  u_display_name = None, u_pfp_url = None, u_custody_address = None\<rparr>)],
               next_member = Missing\<rparr>))\<rparr>)
     (length (sent example_world))
     [\<lparr>users = Some
               [ItemDict (Dict \<lparr>u_fid = Some 1, u_username = Some ''a'',
                  u_display_name = None, u_pfp_url = None, u_custody_address = None\<rparr>)],
               next_member = Dict (JStr [])\<rparr>,
      \<lparr>users = Some
               [ItemDict (Dict \<lparr>u_fid = Some 2, u_username = Some ''b'',
                  u_display_name = None, u_pfp_url = None, u_custody_address = None\<rparr>)],
               next_member = Missing\<rparr>]
   \<and> get_following_list
     (example_env\<lparr>page_reply := \<lambda>n.
        if n = 0
        then Response 200 (Some (Object \<lparr>users = Some
               [ItemDict (Dict \<lparr>u_fid = Some 1, u_username = Some ''a'',
                  u_display_name = None, u_pfp_url = None, u_custody_address = None\<rparr>)],
               next_member = Dict (JStr [])\<rparr>))
        else Response 200 (Some (Object \<lparr>users = Some
               [ItemDict (Dict \<lparr>u_fid = Some 2, u_username = Some ''b'',
                  u_display_name = None, u_pfp_url = None, u_custody_address = None\<rparr>)],
               next_member = Missing\<rparr>))\<rparr>)
     5 example_world =
     Some (Inr [\<lparr>fid = Some 1, username = ''a'', display_name = [], pfp_url = [],
                  custody_address = []\<rparr>],
           example_world\<lparr>sent := [GetFollowing 5 None]\<rparr>)
   \<and> pages_users
     [\<lparr>users = Some
               [ItemDict (Dict \<lparr>u_fid = Some 1, u_username = Some ''a'',
                  u_display_name = None, u_pfp_url = None, u_custody_address = None\<rparr>)],
               next_member = Dict (JStr [])\<rparr>,
      \<lparr>users = Some
               [ItemDict (Dict \<lparr>u_fid = Some 2, u_username = Some ''b'',
                  u_display_name = None, u_pfp_url = None, u_custody_address = None\<rparr>)],
               next_member = Missing\<rparr>] =
     [\<lparr>fid = Some 1, username = ''a'', display_name = [], pfp_url = [],
        custody_address = []\<rparr>,
      \<lparr>fid = Some 2, username = ''b'', display_name = [], pfp_url = [],
        custody_address = []\<rparr>]
   \<and> get_following_list
     (example_env\<lparr>page_reply := \<lambda>n.
        Response 200 (Some (Object \<lparr>users = Some
          [ItemDict (Dict \<lparr>u_fid = Some 1, u_username = Some ''a'',
             u_display_name = None, u_pfp_url = None, u_custody_address = None\<rparr>)],
          next_member = NotDict\<rparr>))\<rparr>)
     5 example_world =
     Some (Inl AttributeError, example_world\<lparr>sent := [GetFollowing 5 None]\<rparr>)
   \<and> get_following_list
     (example_env\<lparr>page_reply := \<lambda>n.
        Response 200 (Some (Object \<lparr>users = Some
          [ItemDict (Dict \<lparr>u_fid = Some 1, u_username = Some ''a'',
             u_display_name = None, u_pfp_url = None, u_custody_address = None\<rparr>),
           ItemDict NotDict],
          next_member = Missing\<rparr>))\<rparr>)
     5 example_world =
     Some (Inl AttributeError, example_world\<lparr>sent := [GetFollowing 5 None]\<rparr>)"
proof -
  have ok: "\<not> raise_for_status 200" by (simp add: raise_for_status_def)
  note ev = example_env_def example_world_def page_served_def raise_for_status_def
    truthy_def cursor_of_def regular_def regular_item_def pages_users_def item_users_def
    account_of_def get_default_def next_cursor_def get_following_list_def
  have a: "serves
     (example_env\<lparr>page_reply := \<lambda>n.
        if n = 0
        then Response 200 (Some (Object \<lparr>users = Some
               [ItemDict (Dict \<lparr>u_fid = Some 1, u_username = Some ''a'',
                  u_display_name = None, u_pfp_url = None, u_custody_address = None\<rparr>)],
               next_member = Dict (JStr [])\<rparr>))
        else Response 200 (Some (Object \<lparr>users = Some
               [ItemDict (Dict \<lparr>u_fid = Some 2, u_username = Some ''b'',
                  u_display_name = None, u_pfp_url = None, u_custody_address = None\<rparr>)],
               next_member = Missing\<rparr>))\<rparr>)
     (length (sent example_world))
     [\<lparr>users = Some
               [ItemDict (Dict \<lparr>u_fid = Some 1, u_username = Some ''a'',
                  u_display_name = None, u_pfp_url = None, u_custody_address = None\<rparr>)],
               next_member = Dict (JStr [])\<rparr>,
      \<lparr>users = Some
               [ItemDict (Dict \<lparr>u_fid = Some 2, u_username = Some ''b'',
                  u_display_name = None, u_pfp_url = None, u_custody_address = None\<rparr>)],
               next_member = Missing\<rparr>]"
    by (simp add: ev)
  have b: "get_following_list
     (example_env\<lparr>page_reply := \<lambda>n.
        if n = 0
        then Response 200 (Some (Object \<lparr>users = Some
               [ItemDict (Dict \<lparr>u_fid = Some 1, u_username = Some ''a'',
                  u_display_name = None, u_pfp_url = None, u_custody_address = None\<rparr>)],
               next_member = Dict (JStr [])\<rparr>))
        else Response 200 (Some (Object \<lparr>users = Some
               [ItemDict (Dict \<lparr>u_fid = Some 2, u_username = Some ''b'',
                  u_display_name = None, u_pfp_url = None, u_custody_address = None\<rparr>)],
               next_member = Missing\<rparr>))\<rparr>)
     5 example_world =
     Some (Inr [\<lparr>fid = Some 1, username = ''a'', display_name = [], pfp_url = [],
                  custody_address = []\<rparr>],
           example_world\<lparr>sent := [GetFollowing 5 None]\<rparr>)"
    by (simp add: get_following_list_def following_loop_last ev)
  have c: "pages_users
     [\<lparr>users = Some
               [ItemDict (Dict \<lparr>u_fid = Some 1, u_username = Some ''a'',
                  u_display_name = None, u_pfp_url = None, u_custody_address = None\<rparr>)],
               next_member = Dict (JStr [])\<rparr>,
      \<lparr>users = Some
               [ItemDict (Dict \<lparr>u_fid = Some 2, u_username = Some ''b'',
                  u_display_name = None, u_pfp_url = None, u_custody_address = None\<rparr>)],
               next_member = Missing\<rparr>] =
     [\<lparr>fid = Some 1, username = ''a'', display_name = [], pfp_url = [],
        custody_address = []\<rparr>,
      \<lparr>fid = Some 2, username = ''b'', display_name = [], pfp_url = [],
        custody_address = []\<rparr>]"
    by (simp add: ev)
  have d: "get_following_list
     (example_env\<lparr>page_reply := \<lambda>n.
        Response 200 (Some (Object \<lparr>users = Some
          [ItemDict (Dict \<lparr>u_fid = Some 1, u_username = Some ''a'',
             u_display_name = None, u_pfp_url = None, u_custody_address = None\<rparr>)],
          next_member = NotDict\<rparr>))\<rparr>)
     5 example_world =
     Some (Inl AttributeError, example_world\<lparr>sent := [GetFollowing 5 None]\<rparr>)"
    by (subst get_following_list_def, subst following_loop_turn [where sc = 200 and data =
          "\<lparr>users = Some
          [ItemDict (Dict \<lparr>u_fid = Some 1, u_username = Some ''a'',
             u_display_name = None, u_pfp_url = None, u_custody_address = None\<rparr>)],
          next_member = NotDict\<rparr>"])
       (simp_all add: ev)
  have f: "get_following_list
     (example_env\<lparr>page_reply := \<lambda>n.
        Response 200 (Some (Object \<lparr>users = Some
          [ItemDict (Dict \<lparr>u_fid = Some 1, u_username = Some ''a'',
             u_display_name = None, u_pfp_url = None, u_custody_address = None\<rparr>),
           ItemDict NotDict],
          next_member = Missing\<rparr>))\<rparr>)
     5 example_world =
     Some (Inl AttributeError, example_world\<lparr>sent := [GetFollowing 5 None]\<rparr>)"
    by (subst get_following_list_def, subst following_loop_turn [where sc = 200 and data =
          "\<lparr>users = Some
          [ItemDict (Dict \<lparr>u_fid = Some 1, u_username = Some ''a'',
             u_display_name = None, u_pfp_url = None, u_custody_address = None\<rparr>),
           ItemDict NotDict],
          next_member = Missing\<rparr>"])
       (simp_all add: ev)
  from a b c d f show ?thesis by blast
qed

section \<open>Properties of the scripts\<close>

subsection \<open>The unfollow loop\<close>

lemma unfollow_user_eq:
  "unfollow_user e t d w =
     (Inr (d \<or> unfollow_accepted (mutate_reply e (length (sent w)))),
      w\<lparr>invoked := invoked w @ [(Unfollow, t, d)],
         sent := sent w @ (if d then [] else [DeleteFollow t])\<rparr>)"
  by (simp add: unfollow_user_def Let_def unfollow_response_eq is_RequestException_def
      unfollow_accepted_def split: http.splits)

lemma follow_user_eq:
  "follow_user e t d w =
     (Inr (d \<or> follow_accepted (mutate_reply e (length (sent w)))),
      w\<lparr>invoked := invoked w @ [(Follow, t, d)],
         sent := sent w @ (if d then [] else [PostFollow t])\<rparr>)"
  by (simp add: follow_user_def Let_def follow_response_eq is_RequestException_def
      follow_accepted_def split: http.splits)

lemma succeeded_sent:
  "length (sent w) = length (sent w') \<Longrightarrow> succeeded e a i us w = succeeded e a i us w'"
proof (induction us arbitrary: i w w')
  case Nil
  show ?case by simp
next
  case (Cons u us)
  have "succeeded e a (Suc i) us (snd (unfollow_user e (fid u) (dry_run a) w)) =
        succeeded e a (Suc i) us (snd (unfollow_user e (fid u) (dry_run a) w'))"
    by (rule Cons.IH) (simp add: unfollow_user_eq Cons.prems)
  then show ?case
    by (simp add: unfollow_user_eq Cons.prems)
qed

lemma append_rows_append:
  "append_rows name (r1 @ r2) fs = append_rows name r2 (append_rows name r1 fs)"
  by (auto simp: append_rows_def get_default_def split: option.splits)

lemma append_rows_Nil [simp]: "append_rows name [] fs = fs"
  by (simp add: append_rows_def)

lemma save_user_to_csv_eq:
  assumes "writable e (record_file my_fid ts)"
    and "name = None \<or> name = Some (record_file my_fid ts)"
  shows "save_user_to_csv e i u my_fid ts name w =
           (Inr (Some (record_file my_fid ts)),
            w\<lparr>files := append_rows (record_file my_fid ts) [record_row e i u] (files w)\<rparr>)"
  using assms
  by (auto simp: save_user_to_csv_def Let_def append_rows_def)

lemma unfollow_loop_eq:
  assumes "writable e (record_file my_fid ts)" and "0 \<le> delay a"
  shows "csv_filename st = None \<or> csv_filename st = Some (record_file my_fid ts) \<Longrightarrow>
    \<exists>st'. unfollow_loop e a my_fid ts len i us st w =
      (Inr st',
       w\<lparr>invoked := invoked w @ map (\<lambda>u. (Unfollow, fid u, dry_run a)) us,
          sent := sent w @ (if dry_run a then [] else map (\<lambda>u. DeleteFollow (fid u)) us),
          files := append_rows (record_file my_fid ts)
                    (map (\<lambda>(k, u). record_row e k u) (succeeded e a i us w)) (files w)\<rparr>)
      \<and> successful_unfollows st' = successful_unfollows st @ map snd (succeeded e a i us w)
      \<and> (csv_filename st' = None \<or> csv_filename st' = Some (record_file my_fid ts))"
proof (induction us arbitrary: i st w)
  case Nil
  then show ?case by simp
next
  case (Cons u us)
  let ?p = "record_file my_fid ts"
  let ?w1 = "snd (unfollow_user e (fid u) (dry_run a) w)"
  have sleep: "time_sleep (delay a) = None"
    using assms(2) by (simp add: time_sleep_def)
  show ?case
  proof (cases "fst (unfollow_user e (fid u) (dry_run a) w) = Inr True")
    case True
    let ?st1 = "st\<lparr>successful_unfollows := successful_unfollows st @ [u],
                  csv_filename := Some ?p\<rparr>"
    let ?w2 = "?w1\<lparr>files := append_rows ?p [record_row e i u] (files ?w1)\<rparr>"
    have step: "unfollow_step e a my_fid ts len i u st w = (Inr ?st1, ?w2)"
      using True save_user_to_csv_eq [OF assms(1) Cons.prems, of i u ?w1]
      by (auto simp: unfollow_step_def unfollow_user_eq sleep)
    have s2: "succeeded e a (Suc i) us ?w2 = succeeded e a (Suc i) us ?w1"
      by (rule succeeded_sent) simp
    have "csv_filename ?st1 = None \<or> csv_filename ?st1 = Some ?p" by simp
    from Cons.IH [OF this, of "Suc i" ?w2] obtain st' where
      "unfollow_loop e a my_fid ts len (Suc i) us ?st1 ?w2 =
         (Inr st',
          ?w2\<lparr>invoked := invoked ?w2 @ map (\<lambda>u. (Unfollow, fid u, dry_run a)) us,
               sent := sent ?w2 @ (if dry_run a then [] else map (\<lambda>u. DeleteFollow (fid u)) us),
               files := append_rows ?p
                 (map (\<lambda>(k, u). record_row e k u) (succeeded e a (Suc i) us ?w1)) (files ?w2)\<rparr>)"
      and "successful_unfollows st' = successful_unfollows ?st1 @ map snd (succeeded e a (Suc i) us ?w1)"
      and "csv_filename st' = None \<or> csv_filename st' = Some ?p"
      unfolding s2 by blast
    then show ?thesis
      using True step
      by (simp add: append_rows_append [of ?p "[record_row e i u]", symmetric]
          unfollow_user_eq)
  next
    case False
    let ?st1 = "st\<lparr>failed_unfollows := failed_unfollows st @ [u]\<rparr>"
    have step: "unfollow_step e a my_fid ts len i u st w = (Inr ?st1, ?w1)"
      using False by (auto simp: unfollow_step_def unfollow_user_eq sleep)
    have "csv_filename ?st1 = None \<or> csv_filename ?st1 = Some ?p"
      using Cons.prems by simp
    from Cons.IH [OF this, of "Suc i" ?w1] obtain st' where
      "unfollow_loop e a my_fid ts len (Suc i) us ?st1 ?w1 =
         (Inr st',
          ?w1\<lparr>invoked := invoked ?w1 @ map (\<lambda>u. (Unfollow, fid u, dry_run a)) us,
               sent := sent ?w1 @ (if dry_run a then [] else map (\<lambda>u. DeleteFollow (fid u)) us),
               files := append_rows ?p
                 (map (\<lambda>(k, u). record_row e k u) (succeeded e a (Suc i) us ?w1)) (files ?w1)\<rparr>)"
      and "successful_unfollows st' = successful_unfollows ?st1 @ map snd (succeeded e a (Suc i) us ?w1)"
      and "csv_filename st' = None \<or> csv_filename st' = Some ?p"
      by blast
    then show ?thesis
      using False step by (simp add: unfollow_user_eq)
  qed
qed

subsection \<open>Reading back a written integer\<close>

lemma digit_value_digit_char: "d < 10 \<Longrightarrow> digit_value (digit_char d) = Some d"
proof -
  assume "d < 10"
  then have "d \<in> {0, 1, 2, 3, 4, 5, 6, 7, 8, 9}" by auto
  then show ?thesis
    by (auto simp: digit_value_def digit_char_def)
qed

lemma digit_char_not_us: "d < 10 \<Longrightarrow> digit_char d \<noteq> CHR ''_''"
proof -
  assume "d < 10"
  then have "d \<in> {0, 1, 2, 3, 4, 5, 6, 7, 8, 9}" by auto
  then show ?thesis
    by (auto simp: digit_char_def)
qed

lemma digit_char_not_space: "d < 10 \<Longrightarrow> \<not> int_isspace (digit_char d)"
proof -
  assume "d < 10"
  then have "d \<in> {0, 1, 2, 3, 4, 5, 6, 7, 8, 9}" by auto
  then show ?thesis
    by (auto simp: digit_char_def int_isspace_def)
qed

lemma digit_char_not_sign: "d < 10 \<Longrightarrow> digit_char d \<noteq> CHR ''-'' \<and> digit_char d \<noteq> CHR ''+''"
proof -
  assume "d < 10"
  then have "d \<in> {0, 1, 2, 3, 4, 5, 6, 7, 8, 9}" by auto
  then show ?thesis
    by (auto simp: digit_char_def)
qed

text \<open>A string of digits: every character is a digit character.\<close>

lemma str_nat_digits: "\<forall>c \<in> set (str_nat n). \<exists>d < 10. c = digit_char d"
proof (induction n rule: str_nat.induct)
  case (1 n)
  show ?case
  proof (cases "n < 10")
    case True
    then show ?thesis by (subst str_nat.simps) auto
  next
    case False
    with 1 show ?thesis
      by (subst str_nat.simps) (auto intro: exI [of _ "n mod 10"])
  qed
qed

lemma str_nat_nonempty: "str_nat n \<noteq> []"
  by (subst str_nat.simps) simp

lemma more_digits_snoc:
  "\<forall>c \<in> set ds. \<exists>d < 10. c = digit_char d \<Longrightarrow> d < 10 \<Longrightarrow>
   more_digits acc (ds @ [digit_char d]) =
     map_option (\<lambda>v. v * 10 + d) (more_digits acc ds)"
proof (induction acc ds rule: more_digits.induct)
  case (1 acc)
  then show ?case by (simp add: digit_value_digit_char)
next
  case (2 acc c)
  then obtain k where k: "k < 10" "c = digit_char k" by auto
  then show ?case
    using 2 by (simp add: digit_value_digit_char digit_char_not_us)
next
  case (3 acc c d' cs)
  then obtain k where k: "k < 10" "c = digit_char k" by auto
  with 3 show ?case
    by (simp add: digit_value_digit_char digit_char_not_us)
qed

lemma more_digits_Some:
  "\<forall>c \<in> set ds. \<exists>d < 10. c = digit_char d \<Longrightarrow> \<exists>v. more_digits acc ds = Some v"
proof (induction acc ds rule: more_digits.induct)
  case (1 acc)
  then show ?case by simp
next
  case (2 acc c)
  then show ?case by (auto simp: digit_value_digit_char)
next
  case (3 acc c d' cs)
  then obtain k where k: "k < 10" "c = digit_char k" by auto
  with 3 show ?case
    by (simp add: digit_value_digit_char digit_char_not_us)
qed

lemma parse_nat_snoc:
  assumes "ds \<noteq> []" "\<forall>c \<in> set ds. \<exists>d < 10. c = digit_char d" "d < 10"
  shows "parse_nat (ds @ [digit_char d]) = map_option (\<lambda>v. v * 10 + d) (parse_nat ds)"
proof -
  from assms(1) obtain c cs where ds: "ds = c # cs" by (cases ds) auto
  with assms(2) obtain k where k: "k < 10" "c = digit_char k" by auto
  from assms(2) ds have cs: "\<forall>c \<in> set cs. \<exists>d < 10. c = digit_char d" by simp
  show ?thesis
    by (simp add: parse_nat_def ds k digit_value_digit_char more_digits_snoc [OF cs assms(3)])
qed

lemma parse_nat_str_nat: "parse_nat (str_nat n) = Some n"
proof (induction n rule: str_nat.induct)
  case (1 n)
  show ?case
  proof (cases "n < 10")
    case True
    then show ?thesis
      by (subst str_nat.simps) (simp add: parse_nat_def digit_value_digit_char)
  next
    case False
    have "parse_nat (str_nat (n div 10) @ [digit_char (n mod 10)]) =
          map_option (\<lambda>v. v * 10 + n mod 10) (parse_nat (str_nat (n div 10)))"
      by (rule parse_nat_snoc) (simp_all add: str_nat_nonempty str_nat_digits)
    with False 1 show ?thesis
      by (subst str_nat.simps) simp
  qed
qed

lemma str_nat_no_space: "\<forall>c \<in> set (str_nat n). \<not> int_isspace c"
  using str_nat_digits [of n] by (auto simp: digit_char_not_space)

lemma strip_chars_id:
  assumes "s \<noteq> []" "\<not> int_isspace (hd s)" "\<not> int_isspace (last s)"
  shows "strip_chars int_isspace s = s"
proof -
  from assms(1,2) have a: "dropWhile int_isspace s = s" by (cases s) auto
  from assms(1,3) have b: "dropWhile int_isspace (rev s) = rev s"
    by (cases "rev s") (auto simp: last_rev [symmetric] hd_rev)
  show ?thesis by (simp add: strip_chars_def a b)
qed

lemma py_int_py_str: "py_int (py_str n) = Some n"
proof (cases "n < 0")
  case True
  let ?s = "str_nat (nat (- n))"
  have ne: "?s \<noteq> []" by (rule str_nat_nonempty)
  have "\<not> int_isspace (last ?s)" using str_nat_no_space ne by (meson last_in_set)
  then have st: "strip_chars int_isspace (CHR ''-'' # ?s) = CHR ''-'' # ?s"
    using ne by (intro strip_chars_id) (auto simp: int_isspace_def)
  show ?thesis
    using True by (simp add: py_int_def py_str_def st parse_nat_str_nat)
next
  case False
  let ?s = "str_nat (nat n)"
  have ne: "?s \<noteq> []" by (rule str_nat_nonempty)
  then obtain c cs where s: "?s = c # cs" by (cases ?s) auto
  have "c \<in> set ?s" by (simp add: s)
  with str_nat_digits obtain d where d: "d < 10" "c = digit_char d" by blast
  have "\<not> int_isspace (last ?s)" "\<not> int_isspace (hd ?s)"
    using str_nat_no_space ne by (meson last_in_set, meson hd_in_set)
  then have "strip_chars int_isspace ?s = ?s" using ne by (intro strip_chars_id)
  then have st: "strip_chars int_isspace (c # cs) = c # cs" by (simp add: s)
  have p: "parse_nat (c # cs) = Some (nat n)"
    using parse_nat_str_nat [of "nat n"] by (simp add: s)
  have c: "c \<noteq> CHR ''-''" "c \<noteq> CHR ''+''"
    using d digit_char_not_sign [of d] by simp_all
  show ?thesis
    using False by (simp add: py_int_def py_str_def s st p c)
qed

lemma py_int_csv_field: "py_int (csv_field v) = v"
proof (cases v)
  case None
  then show ?thesis by (simp add: csv_field_def py_int_def strip_chars_def)
next
  case (Some n)
  then show ?thesis by (simp add: csv_field_def py_int_py_str)
qed

subsection \<open>Loading a record file, and the refollow loop\<close>

lemma load_row_record_row:
  "load_row (dict_of fieldnames (record_row e i u)) =
     (case fid u of
        None \<Rightarrow> Inl ValueError
      | Some n \<Rightarrow> Inr \<lparr>r_fid = n, r_username = Some (username u),
                       r_display_name = Some (display_name u),
                       r_unfollowed_at = Some (row_time e i)\<rparr>)"
proof (cases "fid u")
  case None
  then show ?thesis
    by (simp add: load_row_def dict_of_def fieldnames_def record_row_def csv_field_def
        py_int_def strip_chars_def)
next
  case (Some n)
  have "py_int (csv_field (fid u)) = Some n"
    by (simp add: py_int_csv_field Some)
  then show ?thesis
    by (simp add: load_row_def dict_of_def fieldnames_def record_row_def Some)
qed

lemma load_rows_append_acc:
  "load_rows ds acc = (case load_rows ds [] of Inl x \<Rightarrow> Inl x | Inr l \<Rightarrow> Inr (acc @ l))"
proof (induction ds arbitrary: acc)
  case Nil
  show ?case by simp
next
  case (Cons d ds)
  show ?case
  proof (cases "load_row d")
    case (Inl x)
    then show ?thesis by simp
  next
    case (Inr r)
    show ?thesis
      using Cons [of "acc @ [r]"] Cons [of "[r]"]
      by (simp add: Inr split: sum.splits)
  qed
qed

lemma load_rows_record_rows:
  assumes "\<forall>(i, u) \<in> set S. fid u \<noteq> None"
  shows "\<exists>loaded. load_rows (map (dict_of fieldnames) (map (\<lambda>(i, u). record_row e i u) S)) [] = Inr loaded
           \<and> map (\<lambda>r. Some (r_fid r)) loaded = map (\<lambda>(i, u). fid u) S
           \<and> map r_username loaded = map (\<lambda>(i, u). Some (username u)) S
           \<and> map r_display_name loaded = map (\<lambda>(i, u). Some (display_name u)) S"
  using assms
proof (induction S)
  case Nil
  show ?case by simp
next
  case (Cons x S)
  obtain i u where x: "x = (i, u)" by (cases x)
  from Cons.prems x obtain n where n: "fid u = Some n" by auto
  from Cons obtain loaded where
    l: "load_rows (map (dict_of fieldnames) (map (\<lambda>(i, u). record_row e i u) S)) [] = Inr loaded"
    and "map (\<lambda>r. Some (r_fid r)) loaded = map (\<lambda>(i, u). fid u) S"
    and "map r_username loaded = map (\<lambda>(i, u). Some (username u)) S"
    and "map r_display_name loaded = map (\<lambda>(i, u). Some (display_name u)) S"
    by auto
  then show ?case
    by (simp add: x n load_row_record_row
        load_rows_append_acc [of _ "[\<lparr>r_fid = n, r_username = Some (username u),
                       r_display_name = Some (display_name u),
                       r_unfollowed_at = Some (row_time e i)\<rparr>]"])
qed

lemma record_row_nonempty [simp]: "record_row e i u \<noteq> []"
  by (simp add: record_row_def)

lemma DictReader_record_rows:
  "DictReader (fieldnames # map (\<lambda>(i, u). record_row e i u) S) =
     map (dict_of fieldnames) (map (\<lambda>(i, u). record_row e i u) S)"
proof -
  have "filter (\<lambda>r. r \<noteq> []) (map (\<lambda>(i, u). record_row e i u) S) =
        map (\<lambda>(i, u). record_row e i u) S"
    by (induction S) auto
  then show ?thesis by (simp add: DictReader_def)
qed

lemma refollow_loop_eq:
  assumes "0 \<le> delay a"
  shows "\<exists>st'. refollow_loop e a len i us st w =
      (Inr st',
       w\<lparr>invoked := invoked w @ map (\<lambda>r. (Follow, Some (r_fid r), dry_run a)) us,
          sent := sent w @ (if dry_run a then [] else map (\<lambda>r. PostFollow (Some (r_fid r))) us)\<rparr>)"
proof (induction us arbitrary: i st w)
  case Nil
  show ?case by simp
next
  case (Cons u us)
  have sleep: "time_sleep (delay a) = None"
    using assms by (simp add: time_sleep_def)
  let ?w1 = "snd (follow_user e (Some (r_fid u)) (dry_run a) w)"
  obtain st1 where step: "refollow_step e a len i u st w = (Inr st1, ?w1)"
    by (simp add: refollow_step_def follow_user_eq sleep Let_def)
  from Cons [of "Suc i" st1 ?w1] obtain st' where
    "refollow_loop e a len (Suc i) us st1 ?w1 =
      (Inr st',
       ?w1\<lparr>invoked := invoked ?w1 @ map (\<lambda>r. (Follow, Some (r_fid r), dry_run a)) us,
          sent := sent ?w1 @ (if dry_run a then [] else map (\<lambda>r. PostFollow (Some (r_fid r))) us)\<rparr>)"
    by blast
  then show ?case
    using step by (simp add: follow_user_eq)
qed

subsection \<open>What the steps of \<open>main\<close> leave unchanged\<close>

lemma get_my_fid_world:
  "snd (get_my_fid e s w) = w\<lparr>sent := sent w @ [GetSigner s]\<rparr>"
  by (simp add: get_my_fid_def Let_def split: http.splits option.splits)

lemma confirm_loop_prompts: "n < snd (snd (confirm_loop ls n))"
  by (induction ls n rule: confirm_loop.induct) (auto simp: Let_def intro: Suc_lessD)

lemma confirm_action_world:
  "\<exists>rest n. snd (confirm_action w) = w\<lparr>stdin := rest, prompts := n\<rparr> \<and> prompts w < n"
proof -
  obtain r rest n where c: "confirm_loop (stdin w) (prompts w) = (r, rest, n)"
    by (cases "confirm_loop (stdin w) (prompts w)") auto
  with confirm_loop_prompts [of "prompts w" "stdin w"] have "prompts w < n" by simp
  with c show ?thesis by (auto simp: confirm_action_def)
qed

lemma find_recent_world:
  "snd (find_recent e w) = w \<or> (\<exists>s. snd (find_recent e w) = w\<lparr>sent := sent w @ [GetSigner s]\<rparr>)"
proof (cases "FarcasterAPI e")
  case (Inl x)
  then show ?thesis by (simp add: find_recent_def)
next
  case (Inr s)
  obtain r where "get_my_fid e s w = (r, w\<lparr>sent := sent w @ [GetSigner s]\<rparr>)"
    using get_my_fid_world [of e s w] by (cases "get_my_fid e s w") auto
  then show ?thesis
    by (auto simp: find_recent_def Inr split: option.splits)
qed

lemma load_users_from_csv_world:
  "snd (load_users_from_csv e f w) = w
   \<or> (\<exists>s. snd (load_users_from_csv e f w) = w\<lparr>sent := sent w @ [GetSigner s]\<rparr>)"
proof (cases f)
  case (Some name)
  then show ?thesis
    by (auto simp: load_users_from_csv_def split: option.splits sum.splits)
next
  case None
  obtain r w1 where fr: "find_recent e w = (r, w1)" by (cases "find_recent e w") auto
  with find_recent_world [of e w]
  have "w1 = w \<or> (\<exists>s. w1 = w\<lparr>sent := sent w @ [GetSigner s]\<rparr>)" by simp
  then show ?thesis
    by (auto simp: load_users_from_csv_def None fr split: option.splits sum.splits)
qed

lemma load_users_from_csv_Some:
  "load_users_from_csv e (Some name) w =
     (case files w name of
        None \<Rightarrow> (None, w)
      | Some rows \<Rightarrow>
          (case load_rows (DictReader rows) [] of
             Inl x \<Rightarrow> (None, w)
           | Inr loaded \<Rightarrow> (Some loaded, w)))"
  by (simp add: load_users_from_csv_def split: option.splits sum.splits)

lemma load_rows_fail:
  "\<exists>d \<in> set ds. \<exists>x. load_row d = Inl x \<Longrightarrow> \<exists>x. load_rows ds acc = Inl x"
proof (induction ds arbitrary: acc)
  case Nil
  then show ?case by simp
next
  case (Cons d ds)
  show ?case
  proof (cases "load_row d")
    case (Inl x)
    then show ?thesis by simp
  next
    case (Inr r)
    with Cons.prems have "\<exists>d \<in> set ds. \<exists>x. load_row d = Inl x" by auto
    from Cons.IH [OF this, of "acc @ [r]"] show ?thesis by (simp add: Inr)
  qed
qed

lemma malformed_load_row: "malformed keys r \<Longrightarrow> load_row (dict_of keys r) = Inl ValueError"
  by (auto simp: malformed_def load_row_def split: option.splits)

lemma malformed_load_rows:
  assumes "\<exists>r \<in> set rows. malformed keys r"
  shows "\<exists>x. load_rows (DictReader (keys # rows)) [] = Inl x"
proof -
  from assms obtain r where r: "r \<in> set rows" "malformed keys r" by blast
  then have "r \<noteq> []" by (simp add: malformed_def)
  with r have "dict_of keys r \<in> set (DictReader (keys # rows))"
    by (simp add: DictReader_def)
  with malformed_load_row [OF r(2)] show ?thesis
    by (intro load_rows_fail) blast
qed

subsection \<open>The refollow workflow\<close>

lemma get_my_fid_pair:
  "get_my_fid e s w = (fst (get_my_fid e s w), w\<lparr>sent := sent w @ [GetSigner s]\<rparr>)"
  using get_my_fid_world [of e s w] by (cases "get_my_fid e s w") simp

text \<open>
  \<open>main\<close> of refollow\_all.py once the identity is known and the file is loaded:
  the bounds check, the confirmation and the loop.
\<close>

lemma refollow_main_loaded:
  assumes "FarcasterAPI e = Inr s"
    and "fst (get_my_fid e s w) = Some m" and "m \<noteq> 0"
    and "load_users_from_csv e (csv_file a) (w\<lparr>sent := sent w @ [GetSigner s]\<rparr>) = (Some loaded, w2)"
  shows "refollow_main e a w =
     (if loaded = [] then (1, w2)
      else if 0 < start_from a \<and> int (length loaded) \<le> start_from a then (1, w2)
      else
        (case confirm_action w2 of
           (Inl x, w3) \<Rightarrow> (1, w3)
         | (Inr confirmed, w3) \<Rightarrow>
             if \<not> confirmed then (0, w3)
             else
               (case refollow_loop e a
                       (length (if 0 < start_from a then slice_from (start_from a) loaded
                                else loaded)) 1
                       (if 0 < start_from a then slice_from (start_from a) loaded else loaded)
                       refollow_start w3 of
                  (Inl x, w4) \<Rightarrow> (1, w4)
                | (Inr st, w4) \<Rightarrow> (0, w4))))"
proof -
  have g: "get_my_fid e s w = (Some m, w\<lparr>sent := sent w @ [GetSigner s]\<rparr>)"
    using get_my_fid_pair [of e s w] assms(2) by simp
  show ?thesis
    by (simp add: refollow_main_def assms(1,3,4) g Let_def)
qed

lemma refollow_main_run:
  assumes "FarcasterAPI e = Inr s"
    and "fst (get_my_fid e s w) = Some m" and "m \<noteq> 0"
    and "load_users_from_csv e (csv_file a) (w\<lparr>sent := sent w @ [GetSigner s]\<rparr>) = (Some loaded, w2)"
    and "loaded \<noteq> []"
    and "\<not> (0 < start_from a \<and> int (length loaded) \<le> start_from a)"
    and "fst (confirm_action w2) = Inr True"
    and "0 \<le> delay a"
    and "todo = (if 0 < start_from a then slice_from (start_from a) loaded else loaded)"
  shows "\<exists>rest n. refollow_main e a w =
     (0, w2\<lparr>stdin := rest, prompts := n,
            invoked := invoked w2 @ map (\<lambda>r. (Follow, Some (r_fid r), dry_run a)) todo,
            sent := sent w2 @ (if dry_run a then []
                               else map (\<lambda>r. PostFollow (Some (r_fid r))) todo)\<rparr>)"
proof -
  from confirm_action_world [of w2] obtain rest n where
    c: "snd (confirm_action w2) = w2\<lparr>stdin := rest, prompts := n\<rparr>" by blast
  let ?w3 = "w2\<lparr>stdin := rest, prompts := n\<rparr>"
  have ca: "confirm_action w2 = (Inr True, ?w3)"
    using c assms(7) by (cases "confirm_action w2") simp
  from refollow_loop_eq [OF assms(8), of e "length todo" 1 todo refollow_start ?w3]
  obtain st' where
    l: "refollow_loop e a (length todo) 1 todo refollow_start ?w3 =
      (Inr st',
       ?w3\<lparr>invoked := invoked ?w3 @ map (\<lambda>r. (Follow, Some (r_fid r), dry_run a)) todo,
          sent := sent ?w3 @ (if dry_run a then []
                              else map (\<lambda>r. PostFollow (Some (r_fid r))) todo)\<rparr>)"
    by blast
  have "refollow_main e a w =
      (0, ?w3\<lparr>invoked := invoked ?w3 @ map (\<lambda>r. (Follow, Some (r_fid r), dry_run a)) todo,
          sent := sent ?w3 @ (if dry_run a then []
                              else map (\<lambda>r. PostFollow (Some (r_fid r))) todo)\<rparr>)"
    unfolding refollow_main_loaded [OF assms(1-4)]
    using assms(5,6) ca l unfolding assms(9) [symmetric]
    by simp
  then show ?thesis by auto
qed

lemma confirm_action_cong:
  "stdin w = stdin w' \<Longrightarrow> prompts w = prompts w' \<Longrightarrow>
   fst (confirm_action w) = fst (confirm_action w')"
  by (simp add: confirm_action_def split: prod.splits)

lemma slice_from_pos: "0 < n \<Longrightarrow> slice_from n xs = drop (nat n) xs"
  by (simp add: slice_from_def)

lemma example_file_loads: "load_rows (DictReader example_file) [] = Inr example_loaded"
  by (simp add: example_file_def example_loaded_def example_entries_def DictReader_def
      fieldnames_def dict_of_def load_row_def py_int_def strip_chars_def int_isspace_def
      parse_nat_def digit_value_def)

lemma example_identity:
  "FarcasterAPI example_env = Inr ''signer''"
  "fst (get_my_fid example_env ''signer'' (example_world\<lparr>files := fs\<rparr>)) = Some 5"
  "fst (confirm_action (example_world\<lparr>files := fs\<rparr>)) = Inr True"
  by (simp_all add: FarcasterAPI_def get_my_fid_def example_env_def example_world_def
      raise_for_status_def confirm_action_def py_strip_def strip_chars_def py_lower_def
      py_lower_char_def py_isspace_def Let_def)

text \<open>
  C6, resuming from an offset. The record file \<open>name\<close> loads into \<open>N\<close> rows, the
  offset \<open>k\<close> is above 0 and below \<open>N\<close>, the identity is resolved, the operator
  confirms and the delay is one \<open>time.sleep\<close> accepts. Then the run ends with status 0,
  \<open>follow_user\<close> is invoked for the rows \<open>k + 1\<close> to \<open>N\<close> and no other, in the order
  of the file, the requests sent are those of these calls after the one that resolves
  the identity, and every record file is what it was.
\<close>

theorem offset_resume:
  assumes "FarcasterAPI e = Inr s"
    and "fst (get_my_fid e s w) = Some my_fid" and "my_fid \<noteq> 0"
    and "csv_file a = Some name" and "files w name = Some rows"
    and "load_rows (DictReader rows) [] = Inr loaded"
    and "0 < start_from a" and "start_from a < int (length loaded)"
    and "fst (confirm_action w) = Inr True"
    and "0 \<le> delay a"
  shows "fst (refollow_main e a w) = 0
    \<and> invoked (snd (refollow_main e a w)) =
        invoked w @ map (\<lambda>r. (Follow, Some (r_fid r), dry_run a))
                      (drop (nat (start_from a)) loaded)
    \<and> sent (snd (refollow_main e a w)) =
        sent w @ GetSigner s #
          (if dry_run a then []
           else map (\<lambda>r. PostFollow (Some (r_fid r))) (drop (nat (start_from a)) loaded))
    \<and> files (snd (refollow_main e a w)) = files w"
proof -
  let ?w1 = "w\<lparr>sent := sent w @ [GetSigner s]\<rparr>"
  have ld: "load_users_from_csv e (csv_file a) ?w1 = (Some loaded, ?w1)"
    by (simp add: load_users_from_csv_Some assms(4,5,6))
  have ne: "loaded \<noteq> []" using assms(7,8) by auto
  have ok: "\<not> (0 < start_from a \<and> int (length loaded) \<le> start_from a)"
    using assms(8) by simp
  have c: "fst (confirm_action ?w1) = Inr True"
    using confirm_action_cong [of ?w1 w] assms(9) by simp
  have t: "drop (nat (start_from a)) loaded =
           (if 0 < start_from a then slice_from (start_from a) loaded else loaded)"
    using assms(7) by (simp add: slice_from_pos)
  from refollow_main_run [OF assms(1,2,3) ld ne ok c assms(10) t]
  show ?thesis by auto
qed


theorem offset_resume_witness:
  "fst (refollow_main example_env (example_args\<lparr>start_from := 7\<rparr>)
          (example_world\<lparr>files := [''r.csv'' \<mapsto> example_file]\<rparr>)) = 0
   \<and> invoked (snd (refollow_main example_env (example_args\<lparr>start_from := 7\<rparr>)
          (example_world\<lparr>files := [''r.csv'' \<mapsto> example_file]\<rparr>))) =
       [(Follow, Some 8, False), (Follow, Some 9, False), (Follow, Some 10, False)]
   \<and> sent (snd (refollow_main example_env (example_args\<lparr>start_from := 7\<rparr>)
          (example_world\<lparr>files := [''r.csv'' \<mapsto> example_file]\<rparr>))) =
       [GetSigner ''signer'', PostFollow (Some 8), PostFollow (Some 9), PostFollow (Some 10)]
   \<and> files (snd (refollow_main example_env (example_args\<lparr>start_from := 7\<rparr>)
          (example_world\<lparr>files := [''r.csv'' \<mapsto> example_file]\<rparr>))) =
       [''r.csv'' \<mapsto> example_file]"
proof -
  have d: "drop 7 example_loaded =
     [\<lparr>r_fid = 8, r_username = Some ''h'', r_display_name = Some ''h'',
        r_unfollowed_at = Some ''t''\<rparr>,
      \<lparr>r_fid = 9, r_username = Some ''i'', r_display_name = Some ''i'',
        r_unfollowed_at = Some ''t''\<rparr>,
      \<lparr>r_fid = 10, r_username = Some ''j'', r_display_name = Some ''j'',
        r_unfollowed_at = Some ''t''\<rparr>]"
    by (simp add: example_loaded_def example_entries_def)
  have n: "length example_loaded = 10"
    by (simp add: example_loaded_def example_entries_def)
  show ?thesis
    using offset_resume [of example_env "''signer''"
        "example_world\<lparr>files := [''r.csv'' \<mapsto> example_file]\<rparr>" 5
        "example_args\<lparr>start_from := 7\<rparr>" "''r.csv''" example_file example_loaded,
        OF example_identity(1) example_identity(2) _ _ _ example_file_loads _ _
           example_identity(3)]
    by (simp add: example_args_def example_world_def d n)
qed

text \<open>
  C10, the bounds of the offset, for a run that resolves the identity and loads
  \<open>loaded\<close>. An offset that is at least the number of loaded rows ends the run with
  status 1, with no \<open>input()\<close> call and no follow operation. An offset of zero or
  below leaves the list as loaded: once the operator confirms, \<open>follow_user\<close> is
  invoked for every loaded row in order.
\<close>

theorem start_offset_bounds:
  assumes "FarcasterAPI e = Inr s"
    and "fst (get_my_fid e s w) = Some my_fid" and "my_fid \<noteq> 0"
    and "fst (load_users_from_csv e (csv_file a) (snd (get_my_fid e s w))) = Some loaded"
  shows "(int (length loaded) \<le> start_from a \<longrightarrow>
            fst (refollow_main e a w) = 1
            \<and> invoked (snd (refollow_main e a w)) = invoked w
            \<and> prompts (snd (refollow_main e a w)) = prompts w
            \<and> stdin (snd (refollow_main e a w)) = stdin w)
    \<and> (start_from a \<le> 0 \<and> fst (confirm_action w) = Inr True \<and> 0 \<le> delay a \<longrightarrow>
            invoked (snd (refollow_main e a w)) =
              invoked w @ map (\<lambda>r. (Follow, Some (r_fid r), dry_run a)) loaded)"
proof -
  let ?w1 = "w\<lparr>sent := sent w @ [GetSigner s]\<rparr>"
  obtain w2 where ld: "load_users_from_csv e (csv_file a) ?w1 = (Some loaded, w2)"
    using assms(4) by (cases "load_users_from_csv e (csv_file a) ?w1")
      (simp add: get_my_fid_world)
  from load_users_from_csv_world [of e "csv_file a" ?w1] ld
  have w2: "invoked w2 = invoked w \<and> prompts w2 = prompts w \<and> stdin w2 = stdin w"
    by auto
  note m = refollow_main_loaded [OF assms(1,2,3) ld]
  have a: "int (length loaded) \<le> start_from a \<longrightarrow>
            fst (refollow_main e a w) = 1
            \<and> invoked (snd (refollow_main e a w)) = invoked w
            \<and> prompts (snd (refollow_main e a w)) = prompts w
            \<and> stdin (snd (refollow_main e a w)) = stdin w"
  proof
    assume le: "int (length loaded) \<le> start_from a"
    then have "loaded = [] \<or> (0 < start_from a \<and> int (length loaded) \<le> start_from a)"
      by (cases loaded) auto
    then have "refollow_main e a w = (1, w2)" unfolding m by auto
    then show "fst (refollow_main e a w) = 1
            \<and> invoked (snd (refollow_main e a w)) = invoked w
            \<and> prompts (snd (refollow_main e a w)) = prompts w
            \<and> stdin (snd (refollow_main e a w)) = stdin w"
      using w2 by simp
  qed
  have b: "start_from a \<le> 0 \<and> fst (confirm_action w) = Inr True \<and> 0 \<le> delay a \<longrightarrow>
            invoked (snd (refollow_main e a w)) =
              invoked w @ map (\<lambda>r. (Follow, Some (r_fid r), dry_run a)) loaded"
  proof
    assume h: "start_from a \<le> 0 \<and> fst (confirm_action w) = Inr True \<and> 0 \<le> delay a"
    show "invoked (snd (refollow_main e a w)) =
              invoked w @ map (\<lambda>r. (Follow, Some (r_fid r), dry_run a)) loaded"
    proof (cases "loaded = []")
      case True
      then have "refollow_main e a w = (1, w2)" unfolding m by simp
      then show ?thesis using w2 True by simp
    next
      case False
      have ok: "\<not> (0 < start_from a \<and> int (length loaded) \<le> start_from a)"
        using h by simp
      have c: "fst (confirm_action w2) = Inr True"
        using confirm_action_cong [of w2 w] w2 h by simp
      have t: "loaded = (if 0 < start_from a then slice_from (start_from a) loaded else loaded)"
        using h by simp
      from refollow_main_run [OF assms(1,2,3) ld False ok c _ t] h w2
      show ?thesis by auto
    qed
  qed
  from a b show ?thesis by blast
qed


theorem start_offset_bounds_witness:
  "fst (refollow_main example_env (example_args\<lparr>start_from := 10\<rparr>)
          (example_world\<lparr>files := [''r.csv'' \<mapsto> example_file]\<rparr>)) = 1
   \<and> invoked (snd (refollow_main example_env (example_args\<lparr>start_from := 10\<rparr>)
          (example_world\<lparr>files := [''r.csv'' \<mapsto> example_file]\<rparr>))) = []
   \<and> prompts (snd (refollow_main example_env (example_args\<lparr>start_from := 10\<rparr>)
          (example_world\<lparr>files := [''r.csv'' \<mapsto> example_file]\<rparr>))) = 0
   \<and> invoked (snd (refollow_main example_env (example_args\<lparr>start_from := - 2\<rparr>)
          (example_world\<lparr>files := [''r.csv'' \<mapsto> example_file]\<rparr>))) =
       map (\<lambda>r. (Follow, Some (r_fid r), False)) example_loaded"
proof -
  have n: "length example_loaded = 10"
    by (simp add: example_loaded_def example_entries_def)
  have l: "\<And>k. fst (load_users_from_csv example_env (csv_file (example_args\<lparr>start_from := k\<rparr>))
          (snd (get_my_fid example_env ''signer''
             (example_world\<lparr>files := [''r.csv'' \<mapsto> example_file]\<rparr>)))) = Some example_loaded"
    by (simp add: load_users_from_csv_Some get_my_fid_world example_args_def
        example_file_loads)
  have a: "fst (refollow_main example_env (example_args\<lparr>start_from := 10\<rparr>)
          (example_world\<lparr>files := [''r.csv'' \<mapsto> example_file]\<rparr>)) = 1
   \<and> invoked (snd (refollow_main example_env (example_args\<lparr>start_from := 10\<rparr>)
          (example_world\<lparr>files := [''r.csv'' \<mapsto> example_file]\<rparr>))) = []
   \<and> prompts (snd (refollow_main example_env (example_args\<lparr>start_from := 10\<rparr>)
          (example_world\<lparr>files := [''r.csv'' \<mapsto> example_file]\<rparr>))) = 0"
    using start_offset_bounds [OF example_identity(1) example_identity(2) _ l [of 10],
        THEN conjunct1]
    by (simp add: example_args_def example_world_def n)
  have b: "invoked (snd (refollow_main example_env (example_args\<lparr>start_from := - 2\<rparr>)
          (example_world\<lparr>files := [''r.csv'' \<mapsto> example_file]\<rparr>))) =
       map (\<lambda>r. (Follow, Some (r_fid r), False)) example_loaded"
    using start_offset_bounds [OF example_identity(1) example_identity(2) _ l [of "- 2"],
        THEN conjunct2] example_identity(3) [of "[''r.csv'' \<mapsto> example_file]"]
    by (simp add: example_args_def example_world_def)
  from a b show ?thesis by blast
qed

text \<open>
  C8, the load is all or nothing. When a row of the record file is malformed,
  \<open>load_users_from_csv\<close> returns \<open>None\<close>, not the rows that are well formed, and
  \<open>main\<close> of refollow\_all.py ends with status 1 without asking the operator and
  without a follow operation.
\<close>

theorem all_or_nothing_load:
  assumes "files w name = Some (keys # rows)"
    and "\<exists>r \<in> set rows. malformed keys r"
    and "csv_file a = Some name"
  shows "fst (load_users_from_csv e (Some name) w) = None
    \<and> fst (refollow_main e a w) = 1
    \<and> invoked (snd (refollow_main e a w)) = invoked w
    \<and> prompts (snd (refollow_main e a w)) = prompts w
    \<and> stdin (snd (refollow_main e a w)) = stdin w
    \<and> files (snd (refollow_main e a w)) = files w"
proof -
  from malformed_load_rows [OF assms(2)] obtain x
    where x: "load_rows (DictReader (keys # rows)) [] = Inl x" by blast
  have l: "\<And>w'. files w' = files w \<Longrightarrow> load_users_from_csv e (Some name) w' = (None, w')"
    by (simp add: load_users_from_csv_Some assms(1) x)
  have l0: "fst (load_users_from_csv e (Some name) w) = None"
    by (simp add: l)
  have "refollow_main e a w = (1, w)
        \<or> (\<exists>s. refollow_main e a w = (1, w\<lparr>sent := sent w @ [GetSigner s]\<rparr>))"
  proof (cases "FarcasterAPI e")
    case (Inl y)
    then show ?thesis by (simp add: refollow_main_def)
  next
    case (Inr s)
    let ?w1 = "w\<lparr>sent := sent w @ [GetSigner s]\<rparr>"
    obtain r where g: "get_my_fid e s w = (r, ?w1)"
      using get_my_fid_pair [of e s w] by blast
    have "refollow_main e a w = (1, ?w1)"
      by (simp add: refollow_main_def Inr g assms(3) l split: option.splits)
    then show ?thesis by blast
  qed
  with l0 show ?thesis by auto
qed


theorem all_or_nothing_load_witness:
  "fst (load_users_from_csv example_env (Some ''r.csv'')
          (example_world\<lparr>files := [''r.csv'' \<mapsto>
             [fieldnames, [''1'', ''a'', ''a'', ''t''], [''x2'', ''b'', ''b'', ''t'']]]\<rparr>)) = None
   \<and> fst (refollow_main example_env example_args
          (example_world\<lparr>files := [''r.csv'' \<mapsto>
             [fieldnames, [''1'', ''a'', ''a'', ''t''], [''x2'', ''b'', ''b'', ''t'']]]\<rparr>)) = 1
   \<and> invoked (snd (refollow_main example_env example_args
          (example_world\<lparr>files := [''r.csv'' \<mapsto>
             [fieldnames, [''1'', ''a'', ''a'', ''t''], [''x2'', ''b'', ''b'', ''t'']]]\<rparr>))) = []"
proof -
  have m: "malformed fieldnames [''x2'', ''b'', ''b'', ''t'']"
    by (simp add: malformed_def fieldnames_def dict_of_def py_int_def strip_chars_def
        int_isspace_def parse_nat_def digit_value_def)
  show ?thesis
    using all_or_nothing_load [of
        "example_world\<lparr>files := [''r.csv'' \<mapsto>
             [fieldnames, [''1'', ''a'', ''a'', ''t''], [''x2'', ''b'', ''b'', ''t'']]]\<rparr>"
        "''r.csv''" fieldnames
        "[[''1'', ''a'', ''a'', ''t''], [''x2'', ''b'', ''b'', ''t'']]" example_args example_env]
      m
    by (simp add: example_args_def example_world_def)
qed

subsection \<open>The unfollow workflow\<close>

lemma following_loop_world:
  assumes "following_loop e m cursor acc w = Some y"
  shows "files (snd y) = files w \<and> stdin (snd y) = stdin w \<and> prompts (snd y) = prompts w
   \<and> invoked (snd y) = invoked w"
proof (rule following_loop.raw_induct [OF _ assms])
  fix loop :: "env \<Rightarrow> int \<Rightarrow> json \<Rightarrow> account list \<Rightarrow> world \<Rightarrow>
                ((exn + account list) \<times> world) option"
    and e :: env and m :: int and cursor :: json and acc :: "account list"
    and w :: world and y :: "(exn + account list) \<times> world"
  assume IH: "\<And>e m cursor acc w y. loop e m cursor acc w = Some y \<Longrightarrow>
     files (snd y) = files w \<and> stdin (snd y) = stdin w \<and> prompts (snd y) = prompts w
     \<and> invoked (snd y) = invoked w"
  let ?w1 = "w\<lparr>sent := sent w @ [GetFollowing m (if truthy cursor then Some cursor else None)]\<rparr>"
  assume step: "(let w1 = ?w1 in
      case page_reply e (length (sent w)) of
        Transport_failure \<Rightarrow> Some (Inl ConnectionError, w1)
      | Response status_code decoded \<Rightarrow>
          if raise_for_status status_code then Some (Inl HTTPError, w1)
          else
            (case decoded of
               None \<Rightarrow> Some (Inl JSONDecodeError, w1)
             | Some Not_object \<Rightarrow> Some (Inl AttributeError, w1)
             | Some (Object data) \<Rightarrow>
                 (case users data of
                    None \<Rightarrow> Some (Inl TypeError, w1)
                  | Some users_data \<Rightarrow>
                      (case extract_users users_data acc of
                         Inl x \<Rightarrow> Some (Inl x, w1)
                       | Inr extended \<Rightarrow>
                           (case next_cursor data of
                              Inl x \<Rightarrow> Some (Inl x, w1)
                            | Inr c \<Rightarrow>
                                if \<not> truthy c then Some (Inr extended, w1)
                                else loop e m c extended w1))))) = Some y"
  have ended: "y = (r, ?w1) \<Longrightarrow>
     files (snd y) = files w \<and> stdin (snd y) = stdin w \<and> prompts (snd y) = prompts w
     \<and> invoked (snd y) = invoked w" for r
    by simp
  have again: "loop e m c extended ?w1 = Some y \<Longrightarrow>
     files (snd y) = files w \<and> stdin (snd y) = stdin w \<and> prompts (snd y) = prompts w
     \<and> invoked (snd y) = invoked w" for c extended
    using IH [of e m c extended ?w1 y] by simp
  from step consider r where "y = (r, ?w1)"
    | c extended where "loop e m c extended ?w1 = Some y"
    by (auto simp: Let_def
        split: http.splits if_splits option.splits body.splits sum.splits)
  then show "files (snd y) = files w \<and> stdin (snd y) = stdin w \<and> prompts (snd y) = prompts w
     \<and> invoked (snd y) = invoked w"
  proof cases
    case 1
    then show ?thesis by (rule ended)
  next
    case 2
    then show ?thesis by (rule again)
  qed
qed

lemma get_following_list_world:
  "get_following_list e m w = Some (r, w') \<Longrightarrow>
   files w' = files w \<and> stdin w' = stdin w \<and> prompts w' = prompts w \<and> invoked w' = invoked w"
  using following_loop_world [of e m JNull "[]" w "(r, w')"]
  by (simp add: get_following_list_def)

text \<open>
  \<open>main\<close> of unfollow\_all.py once the identity is known and the list is fetched:
  the cap, the confirmation and the loop.
\<close>

lemma unfollow_main_run:
  assumes "FarcasterAPI e = Inr s"
    and "fst (get_my_fid e s w) = Some m" and "m \<noteq> 0"
    and "get_following_list e m (snd (get_my_fid e s w)) = Some (Inr fetched, w2)"
    and "fetched \<noteq> []"
    and "fst (confirm_action w) = Inr True"
    and "writable e (record_file m (run_timestamp e))"
    and "0 \<le> delay a"
    and "todo = apply_limit (limit a) fetched"
  shows "\<exists>rest n. unfollow_main e a w =
     Some (0, w2\<lparr>stdin := rest, prompts := n,
            invoked := invoked w2 @ map (\<lambda>u. (Unfollow, fid u, dry_run a)) todo,
            sent := sent w2 @ (if dry_run a then [] else map (\<lambda>u. DeleteFollow (fid u)) todo),
            files := append_rows (record_file m (run_timestamp e))
                       (map (\<lambda>(k, u). record_row e k u) (succeeded e a 1 todo w2))
                       (files w)\<rparr>)"
proof -
  let ?w1 = "w\<lparr>sent := sent w @ [GetSigner s]\<rparr>"
  let ?p = "record_file m (run_timestamp e)"
  have g: "get_my_fid e s w = (Some m, ?w1)"
    using get_my_fid_pair [of e s w] assms(2) by simp
  have f: "get_following_list e m ?w1 = Some (Inr fetched, w2)"
    using assms(4) by (simp add: get_my_fid_world)
  from get_following_list_world [OF f]
  have w2: "files w2 = files w" "stdin w2 = stdin w" "prompts w2 = prompts w" by simp_all
  from confirm_action_world [of w2] obtain rest n where
    c: "snd (confirm_action w2) = w2\<lparr>stdin := rest, prompts := n\<rparr>" by blast
  let ?w3 = "w2\<lparr>stdin := rest, prompts := n\<rparr>"
  have "fst (confirm_action w2) = Inr True"
    using confirm_action_cong [of w2 w] w2 assms(6) by simp
  then have ca: "confirm_action w2 = (Inr True, ?w3)"
    using c by (cases "confirm_action w2") simp
  have s3: "succeeded e a 1 todo ?w3 = succeeded e a 1 todo w2"
    by (rule succeeded_sent) simp
  have "csv_filename unfollow_start = None \<or> csv_filename unfollow_start = Some ?p"
    by (simp add: unfollow_start_def)
  from unfollow_loop_eq [OF assms(7,8) this, of "length todo" 1 todo ?w3]
  obtain st' where
    l: "unfollow_loop e a m (run_timestamp e) (length todo) 1 todo unfollow_start ?w3 =
      (Inr st',
       ?w3\<lparr>invoked := invoked ?w3 @ map (\<lambda>u. (Unfollow, fid u, dry_run a)) todo,
          sent := sent ?w3 @ (if dry_run a then [] else map (\<lambda>u. DeleteFollow (fid u)) todo),
          files := append_rows ?p
                    (map (\<lambda>(k, u). record_row e k u) (succeeded e a 1 todo w2)) (files ?w3)\<rparr>)"
    unfolding s3 by blast
  have "unfollow_main e a w =
     Some (0, ?w3\<lparr>invoked := invoked ?w3 @ map (\<lambda>u. (Unfollow, fid u, dry_run a)) todo,
          sent := sent ?w3 @ (if dry_run a then [] else map (\<lambda>u. DeleteFollow (fid u)) todo),
          files := append_rows ?p
                    (map (\<lambda>(k, u). record_row e k u) (succeeded e a 1 todo w2)) (files ?w3)\<rparr>)"
    using l ca unfolding assms(9)
    by (simp add: unfollow_main_def assms(1,3,5) g f Let_def)
  then show ?thesis using w2 by auto
qed

lemma unfollow_main_empty:
  assumes "FarcasterAPI e = Inr s"
    and "fst (get_my_fid e s w) = Some m" and "m \<noteq> 0"
    and "get_following_list e m (snd (get_my_fid e s w)) = Some (Inr [], w2)"
  shows "unfollow_main e a w = Some (0, w2)"
proof -
  let ?w1 = "w\<lparr>sent := sent w @ [GetSigner s]\<rparr>"
  have g: "get_my_fid e s w = (Some m, ?w1)"
    using get_my_fid_pair [of e s w] assms(2) by simp
  have f: "get_following_list e m ?w1 = Some (Inr [], w2)"
    using assms(4) by (simp add: get_my_fid_world)
  show ?thesis
    by (simp add: unfollow_main_def assms(1,3) g f)
qed

lemma following_env_fetch:
  "get_following_list following_env 5 w =
     Some (Inr example_accounts, w\<lparr>sent := sent w @ [GetFollowing 5 None]\<rparr>)"
proof -
  have "page_served (page_reply following_env (length (sent w))) example_page"
    by (simp add: following_env_def page_served_def raise_for_status_def)
  moreover have "regular example_page"
    by (simp add: example_page_def regular_def regular_item_def)
  moreover have "\<not> truthy (cursor_of example_page)"
    by (simp add: example_page_def cursor_of_def truthy_def)
  moreover have "pages_users [example_page] = example_accounts"
    by (simp add: example_page_def example_accounts_def pages_users_def item_users_def
        account_of_def get_default_def)
  ultimately show ?thesis
    by (simp add: get_following_list_def following_loop_last truthy_def)
qed

lemma following_env_identity:
  "FarcasterAPI following_env = Inr ''signer''"
  "fst (get_my_fid following_env ''signer'' example_world) = Some 5"
  "snd (get_my_fid following_env ''signer'' example_world) =
     example_world\<lparr>sent := [GetSigner ''signer'']\<rparr>"
  "fst (confirm_action example_world) = Inr True"
  "writable following_env name"
  "run_timestamp following_env = ''20250101_120000''"
  by (simp_all add: FarcasterAPI_def get_my_fid_def following_env_def example_env_def
      example_world_def raise_for_status_def confirm_action_def py_strip_def strip_chars_def
      py_lower_def py_lower_char_def py_isspace_def Let_def)

lemma example_record_file:
  "record_file 5 ''20250101_120000'' = ''data/unfollowed_users_5_20250101_120000.csv''"
  by (simp add: record_file_def py_str_def str_nat.simps digit_char_def)

text \<open>
  The cap is applied under \<open>if args.limit\<close>, which a cap of zero does not pass; a
  positive cap keeps the first entries, as many as the cap or the whole list.
\<close>

lemma apply_limit_positive:
  "0 < n \<Longrightarrow> apply_limit (Some n) xs = take (min (nat n) (length xs)) xs"
  by (simp add: apply_limit_def slice_to_def min_def)

text \<open>
  C9, the processing cap, at a cap of zero: of a following list of two entries the
  run with \<open>--limit 0\<close> processes both, not the first \<open>min 0 2 = 0\<close> of them. Both
  unfollow requests are sent.
\<close>

theorem limit_zero_processes_all:
  "map_option fst
     (unfollow_main following_env (example_args\<lparr>limit := Some 0\<rparr>) example_world) = Some 0
   \<and> map_option (\<lambda>r. invoked (snd r))
     (unfollow_main following_env (example_args\<lparr>limit := Some 0\<rparr>) example_world) =
     Some [(Unfollow, Some 1, False), (Unfollow, Some 2, False)]
   \<and> map_option (\<lambda>r. sent (snd r))
     (unfollow_main following_env (example_args\<lparr>limit := Some 0\<rparr>) example_world) =
     Some [GetSigner ''signer'', GetFollowing 5 None,
           DeleteFollow (Some 1), DeleteFollow (Some 2)]"
proof -
  have f: "get_following_list following_env 5
             (snd (get_my_fid following_env ''signer'' example_world)) =
           Some (Inr example_accounts,
                 example_world\<lparr>sent := [GetSigner ''signer'', GetFollowing 5 None]\<rparr>)"
    by (simp add: following_env_identity(3) following_env_fetch)
  have t: "example_accounts = apply_limit (limit (example_args\<lparr>limit := Some 0\<rparr>)) example_accounts"
    by (simp add: apply_limit_def)
  from unfollow_main_run [OF following_env_identity(1,2) _ f _ following_env_identity(4,5) _ t]
  show ?thesis
    by (auto simp: example_accounts_def example_args_def example_world_def)
qed

text \<open>
  C2, the records of a dry run: \<open>unfollow_user\<close> returns \<open>True\<close> in a dry run, so
  the loop saves a row for each entry. The run with \<open>--dry-run\<close> over two entries
  sends no unfollow request and leaves a record file with the header and two rows.
\<close>

theorem dry_run_writes_records:
  "map_option (\<lambda>r. files (snd r) ''data/unfollowed_users_5_20250101_120000.csv'')
     (unfollow_main following_env (example_args\<lparr>dry_run := True\<rparr>) example_world) =
     Some (Some [[''fid'', ''username'', ''display_name'', ''unfollowed_at''],
                 [''1'', ''a'', [], ''2025-01-01T12:00:00''],
                 [''2'', ''b'', [], ''2025-01-01T12:00:00'']])
   \<and> map_option (\<lambda>r. sent (snd r))
     (unfollow_main following_env (example_args\<lparr>dry_run := True\<rparr>) example_world) =
     Some [GetSigner ''signer'', GetFollowing 5 None]"
proof -
  have f: "get_following_list following_env 5
             (snd (get_my_fid following_env ''signer'' example_world)) =
           Some (Inr example_accounts,
                 example_world\<lparr>sent := [GetSigner ''signer'', GetFollowing 5 None]\<rparr>)"
    by (simp add: following_env_identity(3) following_env_fetch)
  have t: "example_accounts = apply_limit (limit (example_args\<lparr>dry_run := True\<rparr>)) example_accounts"
    by (simp add: apply_limit_def example_args_def)
  have r: "row_time following_env = (\<lambda>i. ''2025-01-01T12:00:00'')"
    by (simp add: following_env_def example_env_def)
  from unfollow_main_run [OF following_env_identity(1,2) _ f _ following_env_identity(4,5) _ t]
  show ?thesis
    by (auto simp: example_accounts_def example_args_def example_world_def
        following_env_identity(6) example_record_file unfollow_user_eq append_rows_def
        record_row_def csv_field_def py_str_def str_nat.simps digit_char_def r
        fieldnames_def get_default_def)
qed

lemma succeeded_append:
  "\<exists>more. succeeded e a i (xs @ ys) w = succeeded e a i xs w @ more"
proof (induction xs arbitrary: i w)
  case Nil
  show ?case by simp
next
  case (Cons x xs)
  from Cons [of "Suc i" "snd (unfollow_user e (fid x) (dry_run a) w)"]
  show ?case by auto
qed

lemma succeeded_take_prefix:
  assumes "j \<le> k"
  shows "prefix (succeeded e a i (take j us) w) (succeeded e a i (take k us) w)"
proof -
  have "take k us = take j us @ drop j (take k us)"
    using assms by (metis append_take_drop_id min.absorb1 take_take)
  with succeeded_append [of e a i "take j us" "drop j (take k us)" w]
  show ?thesis by (auto simp: prefix_def)
qed

lemma succeeded_all:
  assumes "dry_run a \<or> (\<forall>n. unfollow_accepted (mutate_reply e n))"
  shows "map snd (succeeded e a i us w) = us"
  using assms
  by (induction us arbitrary: i w) (auto simp: unfollow_user_eq)

lemma succeeded_subset: "snd ` set (succeeded e a i us w) \<subseteq> set us"
proof (induction us arbitrary: i w)
  case Nil
  show ?case by simp
next
  case (Cons u us)
  from Cons [of "Suc i" "snd (unfollow_user e (fid u) (dry_run a) w)"]
  show ?case by auto
qed

lemma py_str_not_fid: "py_str n \<noteq> ''fid''"
proof
  assume "py_str n = ''fid''"
  then have "py_int (py_str n) = py_int ''fid''" by simp
  then show False
    by (simp add: py_int_py_str)
      (simp add: py_int_def strip_chars_def int_isspace_def parse_nat_def digit_value_def)
qed

lemma record_row_not_header: "record_row e i u \<noteq> fieldnames"
  by (cases "fid u") (auto simp: record_row_def fieldnames_def csv_field_def py_str_not_fid)

lemma header_not_in_rows: "fieldnames \<notin> set (record_rows e entries)"
  using record_row_not_header [of e] by (auto simp: record_rows_def dest: sym)

lemma unfollow_loop_take:
  assumes "writable e (record_file my_fid ts)" and "0 \<le> delay a"
    and "files w (record_file my_fid ts) = None"
  shows "\<exists>st w'. unfollow_loop e a my_fid ts len 1 (take k us) unfollow_start w = (Inr st, w')
     \<and> successful_unfollows st = map snd (succeeded e a 1 (take k us) w)
     \<and> invoked w' = invoked w @ map (\<lambda>u. (Unfollow, fid u, dry_run a)) (take k us)
     \<and> files w' (record_file my_fid ts) =
         (if succeeded e a 1 (take k us) w = [] then None
          else Some (fieldnames # record_rows e (succeeded e a 1 (take k us) w)))"
proof -
  let ?p = "record_file my_fid ts"
  have "csv_filename unfollow_start = None \<or> csv_filename unfollow_start = Some ?p"
    by (simp add: unfollow_start_def)
  from unfollow_loop_eq [OF assms(1,2) this, of len 1 "take k us" w]
  show ?thesis
    using assms(3)
    by (auto simp: unfollow_start_def record_rows_def append_rows_def get_default_def)
qed

text \<open>
  The interrupted loop is the loop over the first \<open>k\<close> entries, with the interrupt in
  place of its return when entries are left.
\<close>

lemma unfollow_loop_interrupted_eq:
  "unfollow_loop_interrupted k e a my_fid ts len i us st w =
     (if length us \<le> Suc k - i then unfollow_loop e a my_fid ts len i us st w
      else
        (case unfollow_loop e a my_fid ts len i (take (Suc k - i) us) st w of
           (Inl x, w') \<Rightarrow> (Inl x, w')
         | (Inr st', w') \<Rightarrow> (Inl KeyboardInterrupt, w')))"
proof (induction us arbitrary: i st w)
  case Nil
  show ?case by simp
next
  case (Cons u us)
  show ?case
  proof (cases "k < i")
    case True
    then show ?thesis by simp
  next
    case False
    then have s: "Suc k - i = Suc (k - i)" and s': "Suc k - Suc i = k - i" by simp_all
    obtain r w1 where step: "unfollow_step e a my_fid ts len i u st w = (r, w1)"
      by (cases "unfollow_step e a my_fid ts len i u st w")
    show ?thesis
    proof (cases r)
      case (Inl x)
      with False step show ?thesis by (simp add: s)
    next
      case (Inr st1)
      with False step Cons.IH [of "Suc i" st1 w1] show ?thesis by (simp add: s s')
    qed
  qed
qed

lemma unfollow_loop_interrupted_world:
  "snd (unfollow_loop_interrupted k e a my_fid ts len 1 us st w) =
   snd (unfollow_loop e a my_fid ts len 1 (take k us) st w)"
  by (simp add: unfollow_loop_interrupted_eq split: prod.splits sum.splits)

lemma unfollow_loop_interrupted_run:
  assumes "writable e (record_file my_fid ts)" and "0 \<le> delay a"
    and "files w (record_file my_fid ts) = None" and "k < length us"
  shows "\<exists>w'. unfollow_loop_interrupted k e a my_fid ts len 1 us unfollow_start w =
               (Inl KeyboardInterrupt, w')
     \<and> invoked w' = invoked w @ map (\<lambda>u. (Unfollow, fid u, dry_run a)) (take k us)
     \<and> files w' (record_file my_fid ts) =
         (if succeeded e a 1 (take k us) w = [] then None
          else Some (fieldnames # record_rows e (succeeded e a 1 (take k us) w)))"
  using unfollow_loop_take [OF assms(1,2,3), of len k us] assms(4)
  by (auto simp: unfollow_loop_interrupted_eq)

lemma content_interrupted:
  assumes "writable e (record_file my_fid ts)" and "0 \<le> delay a"
    and "files w (record_file my_fid ts) = None"
  shows "content (snd (unfollow_loop_interrupted k e a my_fid ts len 1 us unfollow_start w))
           (record_file my_fid ts) =
         (if succeeded e a 1 (take k us) w = [] then []
          else fieldnames # record_rows e (succeeded e a 1 (take k us) w))"
  unfolding unfollow_loop_interrupted_world content_def
  using unfollow_loop_take [OF assms, of len k us]
  by (auto simp: get_default_def)

text \<open>
  A negative delay: the first entry is called and, when the call succeeds, saved;
  then \<open>time.sleep\<close> raises and the second entry is never reached.
\<close>

lemma unfollow_loop_negative_delay:
  assumes "writable e (record_file my_fid ts)" and "delay a < 0"
    and "files w (record_file my_fid ts) = None" and "2 \<le> length us"
  shows "\<exists>w'. unfollow_loop e a my_fid ts (length us) 1 us unfollow_start w =
               (Inl ValueError, w')
     \<and> invoked w' = invoked w @ [(Unfollow, fid (hd us), dry_run a)]
     \<and> files w' (record_file my_fid ts) =
         (if succeeded e a 1 (take 1 us) w = [] then None
          else Some (fieldnames # record_rows e (succeeded e a 1 (take 1 us) w)))"
proof -
  from assms(4) obtain u u' rest where us: "us = u # u' # rest"
    by (cases us; cases "tl us") auto
  have save: "save_user_to_csv e i u my_fid ts None w1 =
           (Inr (Some (record_file my_fid ts)),
            w1\<lparr>files := append_rows (record_file my_fid ts) [record_row e i u] (files w1)\<rparr>)"
    for i w1
    by (rule save_user_to_csv_eq [OF assms(1)]) simp
  show ?thesis
    using assms(2,3)
    by (simp add: us unfollow_step_def unfollow_user_eq unfollow_start_def save
        time_sleep_def append_rows_def record_rows_def get_default_def)
qed

lemma load_record_rows:
  assumes "files w name = Some (fieldnames # record_rows e entries)"
    and "\<forall>(i, u) \<in> set entries. fid u \<noteq> None"
  shows "\<exists>loaded. load_users_from_csv e' (Some name) w = (Some loaded, w)
           \<and> map (\<lambda>r. Some (r_fid r)) loaded = map (\<lambda>(i, u). fid u) entries
           \<and> map r_username loaded = map (\<lambda>(i, u). Some (username u)) entries
           \<and> map r_display_name loaded = map (\<lambda>(i, u). Some (display_name u)) entries"
  using load_rows_record_rows [OF assms(2), of e]
  by (auto simp: load_users_from_csv_Some assms(1) record_rows_def DictReader_record_rows)

text \<open>
  C5, the append after every success, in runs that do not reach the end of the list.
  The record file is new and appends are accepted.

  With a delay that \<open>time.sleep\<close> accepts and the run interrupted when \<open>k\<close> of its
  entries have been processed, \<open>k\<close> below the length of the list: exactly the first
  \<open>k\<close> entries have been called, and the file holds the header once, followed by one
  row for each of them whose call returned \<open>True\<close>, in the order they were processed
  (no file before the first success); when these entries carry an id,
  \<open>load_users_from_csv\<close> reads the file back as their rows; and what the file held
  at an earlier interrupt is a prefix of what it holds now. The run that is not
  interrupted returns with the rows of all its successes, and the file of every
  interrupted run is a prefix of its file.

  With a negative delay and two entries or more, the loop itself ends on the
  \<open>ValueError\<close> of \<open>time.sleep\<close> after its first entry, and the row of that entry,
  when its call returned \<open>True\<close>, is in the file.
\<close>

theorem crash_safe_append:
  assumes "writable e (record_file my_fid ts)"
    and "files w (record_file my_fid ts) = None"
  shows "(0 \<le> delay a \<and> k < length following_users \<longrightarrow>
      (\<exists>w'. unfollow_loop_interrupted k e a my_fid ts (length following_users) 1
               following_users unfollow_start w = (Inl KeyboardInterrupt, w')
         \<and> invoked w' =
             invoked w @ map (\<lambda>u. (Unfollow, fid u, dry_run a)) (take k following_users)
         \<and> files w' (record_file my_fid ts) =
             (if succeeded e a 1 (take k following_users) w = [] then None
              else Some (fieldnames #
                         record_rows e (succeeded e a 1 (take k following_users) w)))
         \<and> ((\<forall>(i, u) \<in> set (succeeded e a 1 (take k following_users) w). fid u \<noteq> None)
              \<and> succeeded e a 1 (take k following_users) w \<noteq> [] \<longrightarrow>
             (\<exists>loaded. fst (load_users_from_csv e (Some (record_file my_fid ts)) w') =
                         Some loaded
                \<and> map (\<lambda>r. Some (r_fid r)) loaded =
                    map (\<lambda>(i, u). fid u) (succeeded e a 1 (take k following_users) w)
                \<and> map r_username loaded =
                    map (\<lambda>(i, u). Some (username u))
                      (succeeded e a 1 (take k following_users) w)
                \<and> map r_display_name loaded =
                    map (\<lambda>(i, u). Some (display_name u))
                      (succeeded e a 1 (take k following_users) w)))
         \<and> (\<forall>j \<le> k. prefix
               (content (snd (unfollow_loop_interrupted j e a my_fid ts
                                (length following_users) 1 following_users unfollow_start w))
                  (record_file my_fid ts))
               (content w' (record_file my_fid ts)))))
   \<and> (0 \<le> delay a \<longrightarrow>
      (\<exists>st w'. unfollow_loop e a my_fid ts (length following_users) 1
                  following_users unfollow_start w = (Inr st, w')
         \<and> successful_unfollows st = map snd (succeeded e a 1 following_users w)
         \<and> files w' (record_file my_fid ts) =
             (if succeeded e a 1 following_users w = [] then None
              else Some (fieldnames # record_rows e (succeeded e a 1 following_users w)))
         \<and> (\<forall>j. prefix
               (content (snd (unfollow_loop_interrupted j e a my_fid ts
                                (length following_users) 1 following_users unfollow_start w))
                  (record_file my_fid ts))
               (content w' (record_file my_fid ts)))))
   \<and> (delay a < 0 \<and> 2 \<le> length following_users \<longrightarrow>
      (\<exists>w'. unfollow_loop e a my_fid ts (length following_users) 1
               following_users unfollow_start w = (Inl ValueError, w')
         \<and> invoked w' = invoked w @ [(Unfollow, fid (hd following_users), dry_run a)]
         \<and> files w' (record_file my_fid ts) =
             (if succeeded e a 1 (take 1 following_users) w = [] then None
              else Some (fieldnames #
                         record_rows e (succeeded e a 1 (take 1 following_users) w)))))
   \<and> fieldnames \<notin> set (record_rows e (succeeded e a 1 (take k following_users) w))"
proof -
  let ?p = "record_file my_fid ts"
  let ?M = "length following_users"
  let ?S = "\<lambda>n. succeeded e a 1 (take n following_users) w"
  let ?I = "\<lambda>j. unfollow_loop_interrupted j e a my_fid ts ?M 1 following_users unfollow_start w"
  have cont: "content (snd (?I j)) ?p = (if ?S j = [] then [] else fieldnames # record_rows e (?S j))"
    if "0 \<le> delay a" for j
    by (rule content_interrupted [OF assms(1) that assms(2)])
  have pre: "prefix (if ?S j = [] then [] else fieldnames # record_rows e (?S j))
                    (if ?S n = [] then [] else fieldnames # record_rows e (?S n))"
    if "j \<le> n" for j n
  proof -
    from succeeded_take_prefix [OF that, of e a 1 following_users w]
    obtain more where "?S n = ?S j @ more" by (auto simp: prefix_def)
    then show ?thesis by (auto simp: record_rows_def)
  qed
  have interrupted: "\<exists>w'. ?I k = (Inl KeyboardInterrupt, w')
         \<and> invoked w' =
             invoked w @ map (\<lambda>u. (Unfollow, fid u, dry_run a)) (take k following_users)
         \<and> files w' ?p = (if ?S k = [] then None else Some (fieldnames # record_rows e (?S k)))
         \<and> ((\<forall>(i, u) \<in> set (?S k). fid u \<noteq> None) \<and> ?S k \<noteq> [] \<longrightarrow>
             (\<exists>loaded. fst (load_users_from_csv e (Some ?p) w') = Some loaded
                \<and> map (\<lambda>r. Some (r_fid r)) loaded = map (\<lambda>(i, u). fid u) (?S k)
                \<and> map r_username loaded = map (\<lambda>(i, u). Some (username u)) (?S k)
                \<and> map r_display_name loaded = map (\<lambda>(i, u). Some (display_name u)) (?S k)))
         \<and> (\<forall>j \<le> k. prefix (content (snd (?I j)) ?p) (content w' ?p))"
    if d: "0 \<le> delay a" and k: "k < ?M"
  proof -
    from unfollow_loop_interrupted_run [OF assms(1) d assms(2) k, of ?M] obtain w' where
      run: "?I k = (Inl KeyboardInterrupt, w')"
      and inv: "invoked w' =
             invoked w @ map (\<lambda>u. (Unfollow, fid u, dry_run a)) (take k following_users)"
      and fi: "files w' ?p = (if ?S k = [] then None else Some (fieldnames # record_rows e (?S k)))"
      by blast
    have load: "\<exists>loaded. fst (load_users_from_csv e (Some ?p) w') = Some loaded
                \<and> map (\<lambda>r. Some (r_fid r)) loaded = map (\<lambda>(i, u). fid u) (?S k)
                \<and> map r_username loaded = map (\<lambda>(i, u). Some (username u)) (?S k)
                \<and> map r_display_name loaded = map (\<lambda>(i, u). Some (display_name u)) (?S k)"
      if h: "(\<forall>(i, u) \<in> set (?S k). fid u \<noteq> None) \<and> ?S k \<noteq> []"
    proof -
      from h fi have f: "files w' ?p = Some (fieldnames # record_rows e (?S k))" by simp
      from h have "\<forall>(i, u) \<in> set (?S k). fid u \<noteq> None" by simp
      from load_record_rows [OF f this, of e] show ?thesis by auto
    qed
    have mono: "prefix (content (snd (?I j)) ?p) (content w' ?p)" if "j \<le> k" for j
    proof -
      have "content w' ?p = content (snd (?I k)) ?p" unfolding run by simp
      then show ?thesis
        using pre [OF that] by (simp only: cont [OF d])
    qed
    from run inv fi load mono show ?thesis by blast
  qed
  have complete: "\<exists>st w'. unfollow_loop e a my_fid ts ?M 1 following_users unfollow_start w =
                    (Inr st, w')
         \<and> successful_unfollows st = map snd (succeeded e a 1 following_users w)
         \<and> files w' ?p =
             (if succeeded e a 1 following_users w = [] then None
              else Some (fieldnames # record_rows e (succeeded e a 1 following_users w)))
         \<and> (\<forall>j. prefix (content (snd (?I j)) ?p) (content w' ?p))"
    if d: "0 \<le> delay a"
  proof -
    from unfollow_loop_take [OF assms(1) d assms(2), of ?M ?M following_users]
    obtain st w' where
      run: "unfollow_loop e a my_fid ts ?M 1 following_users unfollow_start w = (Inr st, w')"
      and su: "successful_unfollows st = map snd (succeeded e a 1 following_users w)"
      and fi: "files w' ?p =
             (if succeeded e a 1 following_users w = [] then None
              else Some (fieldnames # record_rows e (succeeded e a 1 following_users w)))"
      by auto
    have all: "content w' ?p = (if ?S ?M = [] then [] else fieldnames # record_rows e (?S ?M))"
      using fi by (simp add: content_def get_default_def)
    have mono: "prefix (content (snd (?I j)) ?p) (content w' ?p)" for j
    proof (cases "j \<le> ?M")
      case True
      from pre [OF True] show ?thesis by (simp only: cont [OF d] all)
    next
      case False
      then have "?S j = ?S ?M" by simp
      then show ?thesis by (simp only: cont [OF d] all)
    qed
    from run su fi mono show ?thesis by blast
  qed
  have negative: "\<exists>w'. unfollow_loop e a my_fid ts ?M 1 following_users unfollow_start w =
                    (Inl ValueError, w')
         \<and> invoked w' = invoked w @ [(Unfollow, fid (hd following_users), dry_run a)]
         \<and> files w' ?p = (if ?S 1 = [] then None else Some (fieldnames # record_rows e (?S 1)))"
    if "delay a < 0" and "2 \<le> ?M"
    by (rule unfollow_loop_negative_delay [OF assms(1) that(1) assms(2) that(2)])
  from interrupted complete negative header_not_in_rows [of e "?S k"]
  show ?thesis by blast
qed

text \<open>
  Two accounts, both calls accepted. Interrupted after the first entry, the run has
  made one call and the file holds the header and the row of the first account, which
  loads as that account; interrupted before the first entry the file is absent. With a
  delay of \<open>-1\<close> the loop ends on \<open>ValueError\<close> with the same file.
\<close>

theorem crash_safe_append_witness:
  "(\<exists>w'. unfollow_loop_interrupted 1 example_env example_args 5 ''20250101_120000'' 2 1
            example_accounts unfollow_start example_world = (Inl KeyboardInterrupt, w')
      \<and> invoked w' = [(Unfollow, Some 1, False)]
      \<and> files w' (record_file 5 ''20250101_120000'') =
          Some [fieldnames, [''1'', ''a'', [], ''2025-01-01T12:00:00'']]
      \<and> (\<exists>loaded. fst (load_users_from_csv example_env
                          (Some (record_file 5 ''20250101_120000'')) w') = Some loaded
            \<and> map r_fid loaded = [1])
      \<and> prefix (content (snd (unfollow_loop_interrupted 0 example_env example_args 5
                                ''20250101_120000'' 2 1 example_accounts unfollow_start
                                example_world))
                  (record_file 5 ''20250101_120000''))
           (content w' (record_file 5 ''20250101_120000'')))
   \<and> (\<exists>st w'. unfollow_loop example_env example_args 5 ''20250101_120000'' 2 1
            example_accounts unfollow_start example_world = (Inr st, w')
      \<and> successful_unfollows st = example_accounts
      \<and> files w' (record_file 5 ''20250101_120000'') =
          Some [fieldnames, [''1'', ''a'', [], ''2025-01-01T12:00:00''],
                [''2'', ''b'', [], ''2025-01-01T12:00:00'']])
   \<and> (\<exists>w'. unfollow_loop example_env (example_args\<lparr>delay := - 1\<rparr>) 5 ''20250101_120000'' 2 1
            example_accounts unfollow_start example_world = (Inl ValueError, w')
      \<and> invoked w' = [(Unfollow, Some 1, False)]
      \<and> files w' (record_file 5 ''20250101_120000'') =
          Some [fieldnames, [''1'', ''a'', [], ''2025-01-01T12:00:00'']])"
proof -
  let ?p = "record_file 5 ''20250101_120000''"
  have h: "writable example_env ?p" "files example_world ?p = None"
    by (simp_all add: example_env_def example_world_def)
  have len: "length example_accounts = 2"
    by (simp add: example_accounts_def)
  have S1: "succeeded example_env a 1 (take 1 example_accounts) example_world =
           [(1, hd example_accounts)]" for a
    by (simp add: example_accounts_def example_world_def unfollow_user_eq
        unfollow_accepted_def raise_for_status_def example_env_def)
  have S2: "succeeded example_env a 1 example_accounts example_world =
           [(1, hd example_accounts), (2, hd (tl example_accounts))]" for a
    by (simp add: example_accounts_def example_world_def unfollow_user_eq
        unfollow_accepted_def raise_for_status_def example_env_def)
  note ev = record_rows_def record_row_def example_accounts_def csv_field_def
    py_str_def str_nat.simps digit_char_def example_env_def example_args_def
    example_world_def
  have d: "0 \<le> delay example_args \<and> 1 < length example_accounts"
    "0 \<le> delay example_args"
    "delay (example_args\<lparr>delay := - 1\<rparr>) < 0 \<and> 2 \<le> length example_accounts"
    by (simp_all add: example_args_def len)
  note c = crash_safe_append [OF h, of example_args 1 example_accounts]
  note c' = crash_safe_append [OF h, of "example_args\<lparr>delay := - 1\<rparr>" 1 example_accounts]
  from c [THEN conjunct1, rule_format, OF d(1)] obtain w' where
    run: "unfollow_loop_interrupted 1 example_env example_args 5 ''20250101_120000''
            (length example_accounts) 1 example_accounts unfollow_start example_world =
          (Inl KeyboardInterrupt, w')"
    and inv: "invoked w' = invoked example_world @
                map (\<lambda>u. (Unfollow, fid u, dry_run example_args)) (take 1 example_accounts)"
    and fi: "files w' ?p =
       (if succeeded example_env example_args 1 (take 1 example_accounts) example_world = []
        then None
        else Some (fieldnames # record_rows example_env
               (succeeded example_env example_args 1 (take 1 example_accounts) example_world)))"
    and lo: "(\<forall>(i, u) \<in> set (succeeded example_env example_args 1 (take 1 example_accounts)
                                 example_world). fid u \<noteq> None)
             \<and> succeeded example_env example_args 1 (take 1 example_accounts) example_world \<noteq> []
             \<longrightarrow>
             (\<exists>loaded. fst (load_users_from_csv example_env (Some ?p) w') = Some loaded
                \<and> map (\<lambda>r. Some (r_fid r)) loaded =
                    map (\<lambda>(i, u). fid u)
                      (succeeded example_env example_args 1 (take 1 example_accounts)
                         example_world)
                \<and> map r_username loaded =
                    map (\<lambda>(i, u). Some (username u))
                      (succeeded example_env example_args 1 (take 1 example_accounts)
                         example_world)
                \<and> map r_display_name loaded =
                    map (\<lambda>(i, u). Some (display_name u))
                      (succeeded example_env example_args 1 (take 1 example_accounts)
                         example_world))"
    and mo: "\<forall>j \<le> 1. prefix
               (content (snd (unfollow_loop_interrupted j example_env example_args 5
                     ''20250101_120000'' (length example_accounts) 1 example_accounts
                     unfollow_start example_world)) ?p)
               (content w' ?p)"
    by blast
  have i1: "invoked w' = [(Unfollow, Some 1, False)]"
    using inv by (simp add: ev)
  have i2: "files w' ?p = Some [fieldnames, [''1'', ''a'', [], ''2025-01-01T12:00:00'']]"
    using fi unfolding S1 by (simp add: ev)
  from lo obtain loaded where
    "fst (load_users_from_csv example_env (Some ?p) w') = Some loaded"
    "map (\<lambda>r. Some (r_fid r)) loaded = [Some 1]"
    unfolding S1 by (auto simp: example_accounts_def)
  then have i3: "\<exists>loaded. fst (load_users_from_csv example_env (Some ?p) w') = Some loaded
            \<and> map r_fid loaded = [1]"
    by (cases loaded) auto
  from mo have i4: "prefix
       (content (snd (unfollow_loop_interrupted 0 example_env example_args 5
                     ''20250101_120000'' (length example_accounts) 1 example_accounts
                     unfollow_start example_world)) ?p)
       (content w' ?p)"
    by simp
  have first: "\<exists>w'. unfollow_loop_interrupted 1 example_env example_args 5 ''20250101_120000'' 2 1
            example_accounts unfollow_start example_world = (Inl KeyboardInterrupt, w')
      \<and> invoked w' = [(Unfollow, Some 1, False)]
      \<and> files w' ?p = Some [fieldnames, [''1'', ''a'', [], ''2025-01-01T12:00:00'']]
      \<and> (\<exists>loaded. fst (load_users_from_csv example_env (Some ?p) w') = Some loaded
            \<and> map r_fid loaded = [1])
      \<and> prefix (content (snd (unfollow_loop_interrupted 0 example_env example_args 5
                                ''20250101_120000'' 2 1 example_accounts unfollow_start
                                example_world)) ?p)
           (content w' ?p)"
    by (rule exI [of _ w'])
      (rule conjI [OF run [unfolded len] conjI [OF i1 conjI [OF i2
         conjI [OF i3 i4 [unfolded len]]]]])
  from c [THEN conjunct2, THEN conjunct1, rule_format, OF d(2)] obtain st w2 where
    "unfollow_loop example_env example_args 5 ''20250101_120000''
            (length example_accounts) 1 example_accounts unfollow_start example_world =
          (Inr st, w2)"
    "successful_unfollows st =
       map snd (succeeded example_env example_args 1 example_accounts example_world)"
    "files w2 ?p =
       (if succeeded example_env example_args 1 example_accounts example_world = [] then None
        else Some (fieldnames # record_rows example_env
               (succeeded example_env example_args 1 example_accounts example_world)))"
    by blast
  then have second: "\<exists>st w'. unfollow_loop example_env example_args 5 ''20250101_120000'' 2 1
            example_accounts unfollow_start example_world = (Inr st, w')
      \<and> successful_unfollows st = example_accounts
      \<and> files w' ?p =
          Some [fieldnames, [''1'', ''a'', [], ''2025-01-01T12:00:00''],
                [''2'', ''b'', [], ''2025-01-01T12:00:00'']]"
    unfolding S2 len by (simp add: ev)
  from c' [THEN conjunct2, THEN conjunct2, THEN conjunct1, rule_format, OF d(3)]
  obtain w3 where
    "unfollow_loop example_env (example_args\<lparr>delay := - 1\<rparr>) 5 ''20250101_120000''
            (length example_accounts) 1 example_accounts unfollow_start example_world =
          (Inl ValueError, w3)"
    "invoked w3 = invoked example_world @
        [(Unfollow, fid (hd example_accounts), dry_run (example_args\<lparr>delay := - 1\<rparr>))]"
    "files w3 ?p =
       (if succeeded example_env (example_args\<lparr>delay := - 1\<rparr>) 1 (take 1 example_accounts)
             example_world = [] then None
        else Some (fieldnames # record_rows example_env
               (succeeded example_env (example_args\<lparr>delay := - 1\<rparr>) 1
                  (take 1 example_accounts) example_world)))"
    by blast
  then have third: "\<exists>w'. unfollow_loop example_env (example_args\<lparr>delay := - 1\<rparr>) 5
            ''20250101_120000'' 2 1 example_accounts unfollow_start example_world =
            (Inl ValueError, w')
      \<and> invoked w' = [(Unfollow, Some 1, False)]
      \<and> files w' ?p = Some [fieldnames, [''1'', ''a'', [], ''2025-01-01T12:00:00'']]"
    unfolding S1 len by (simp add: ev)
  show ?thesis
    by (rule conjI [OF first conjI [OF second third]])
qed

subsection \<open>From the unfollow run to the refollow run\<close>

lemma refollow_main_no_file:
  assumes "FarcasterAPI e = Inr s" and "csv_file a = Some name" and "files w name = None"
  shows "sent (snd (refollow_main e a w)) = sent w @ [GetSigner s]"
proof -
  let ?w1 = "w\<lparr>sent := sent w @ [GetSigner s]\<rparr>"
  obtain r where g: "get_my_fid e s w = (r, ?w1)"
    using get_my_fid_pair [of e s w] by blast
  have "load_users_from_csv e (Some name) ?w1 = (None, ?w1)"
    by (simp add: load_users_from_csv_Some assms(3))
  then have "refollow_main e a w = (1, ?w1)"
    by (simp add: refollow_main_def assms(1,2) g split: option.splits)
  then show ?thesis by simp
qed

text \<open>
  C1, the round trip. The unfollow run resolves its identity, fetches \<open>accounts\<close>
  (each with an id), has no cap, is no dry run, is confirmed by the operator, has every
  unfollow request accepted and writes a new record file. Then it returns, having sent
  one unfollow request per account in the order of the list. Every refollow run over
  the files it leaves, given that record file, offset zero and no dry run, and confirmed
  by the operator, sends after the request for its identity exactly one follow request
  per account, for the same ids in the same order. With no account at all there is no
  record file and the refollow run sends no follow request.
\<close>

theorem round_trip:
  assumes "FarcasterAPI e = Inr s"
    and "fst (get_my_fid e s w) = Some my_fid" and "my_fid \<noteq> 0"
    and "get_following_list e my_fid (snd (get_my_fid e s w)) = Some (Inr accounts, w2)"
    and "\<forall>u \<in> set accounts. fid u \<noteq> None"
    and "limit a = None" and "\<not> dry_run a" and "0 \<le> delay a"
    and "fst (confirm_action w) = Inr True"
    and "\<forall>n. unfollow_accepted (mutate_reply e n)"
    and "writable e (record_file my_fid (run_timestamp e))"
    and "files w (record_file my_fid (run_timestamp e)) = None"
    and "FarcasterAPI e2 = Inr s2" and "fid2 \<noteq> 0"
    and "csv_file a2 = Some (record_file my_fid (run_timestamp e))"
    and "start_from a2 = 0" and "\<not> dry_run a2" and "0 \<le> delay a2"
  shows "\<exists>c w'. unfollow_main e a w = Some (c, w')
      \<and> sent w' = sent w2 @ map (\<lambda>u. DeleteFollow (fid u)) accounts
      \<and> (\<forall>v. files v = files w' \<and> fst (get_my_fid e2 s2 v) = Some fid2
               \<and> fst (confirm_action v) = Inr True \<longrightarrow>
           sent (snd (refollow_main e2 a2 v)) =
             sent v @ GetSigner s2 # map (\<lambda>u. PostFollow (fid u)) accounts)"
proof (cases "accounts = []")
  case True
  let ?p = "record_file my_fid (run_timestamp e)"
  have m: "unfollow_main e a w = Some (0, w2)"
    using unfollow_main_empty [OF assms(1,2,3)] assms(4) True by simp
  have "files w2 = files w"
    using get_following_list_world [OF assms(4)] by (simp add: get_my_fid_world)
  then have "\<forall>v. files v = files w2 \<longrightarrow> files v ?p = None"
    using assms(12) by simp
  then have "\<forall>v. files v = files w2 \<longrightarrow>
      sent (snd (refollow_main e2 a2 v)) = sent v @ [GetSigner s2]"
    using refollow_main_no_file [OF assms(13,15)] by blast
  with m True show ?thesis by simp
next
  case False
  let ?p = "record_file my_fid (run_timestamp e)"
  let ?S = "succeeded e a 1 accounts w2"
  have t: "accounts = apply_limit (limit a) accounts"
    by (simp add: apply_limit_def assms(6))
  from unfollow_main_run [OF assms(1,2,3,4) False assms(9,11,8) t] obtain rest n where
    m: "unfollow_main e a w =
      Some (0, w2\<lparr>stdin := rest, prompts := n,
            invoked := invoked w2 @ map (\<lambda>u. (Unfollow, fid u, dry_run a)) accounts,
            sent := sent w2 @ (if dry_run a then []
                               else map (\<lambda>u. DeleteFollow (fid u)) accounts),
            files := append_rows ?p (map (\<lambda>(k, u). record_row e k u) ?S) (files w)\<rparr>)"
    by blast
  let ?w' = "w2\<lparr>stdin := rest, prompts := n,
            invoked := invoked w2 @ map (\<lambda>u. (Unfollow, fid u, dry_run a)) accounts,
            sent := sent w2 @ (if dry_run a then []
                               else map (\<lambda>u. DeleteFollow (fid u)) accounts),
            files := append_rows ?p (map (\<lambda>(k, u). record_row e k u) ?S) (files w)\<rparr>"
  have all: "map snd ?S = accounts"
    by (rule succeeded_all) (simp add: assms(10))
  then have ne: "?S \<noteq> []" using False by auto
  have fw: "files ?w' ?p = Some (fieldnames # record_rows e ?S)"
    using ne assms(12) by (simp add: append_rows_def record_rows_def get_default_def)
  have ids: "\<forall>(i, u) \<in> set ?S. fid u \<noteq> None"
    using assms(5) succeeded_subset [of e a 1 accounts w2] by force
  have re: "\<forall>v. files v = files ?w' \<and> fst (get_my_fid e2 s2 v) = Some fid2
               \<and> fst (confirm_action v) = Inr True \<longrightarrow>
           sent (snd (refollow_main e2 a2 v)) =
             sent v @ GetSigner s2 # map (\<lambda>u. PostFollow (fid u)) accounts"
  proof (intro allI impI, elim conjE)
    fix v
    assume fv: "files v = files ?w'" and idv: "fst (get_my_fid e2 s2 v) = Some fid2"
      and cv: "fst (confirm_action v) = Inr True"
    let ?v1 = "v\<lparr>sent := sent v @ [GetSigner s2]\<rparr>"
    have "files ?v1 ?p = Some (fieldnames # record_rows e ?S)"
      using fv fw by simp
    from load_record_rows [OF this ids, of e2] obtain loaded where
      ld: "load_users_from_csv e2 (Some ?p) ?v1 = (Some loaded, ?v1)"
      and lf: "map (\<lambda>r. Some (r_fid r)) loaded = map (\<lambda>(i, u). fid u) ?S"
      by blast
    have e1: "map (\<lambda>(i, u). fid u) ?S = map fid (map snd ?S)"
      by (simp add: case_prod_unfold comp_def)
    have lf2: "map (\<lambda>r. Some (r_fid r)) loaded = map fid accounts"
      by (simp only: lf e1 all)
    then have "length loaded = length accounts"
      by (metis length_map)
    then have lne: "loaded \<noteq> []" using False by auto
    have ld': "load_users_from_csv e2 (csv_file a2) ?v1 = (Some loaded, ?v1)"
      using ld by (simp add: assms(15))
    have ok: "\<not> (0 < start_from a2 \<and> int (length loaded) \<le> start_from a2)"
      by (simp add: assms(16))
    have c: "fst (confirm_action ?v1) = Inr True"
      using confirm_action_cong [of ?v1 v] cv by simp
    have td: "loaded = (if 0 < start_from a2 then slice_from (start_from a2) loaded else loaded)"
      by (simp add: assms(16))
    have pf: "map (\<lambda>r. PostFollow (Some (r_fid r))) loaded = map (\<lambda>u. PostFollow (fid u)) accounts"
      using arg_cong [OF lf2, of "map PostFollow"] by (simp add: comp_def)
    from refollow_main_run [OF assms(13) idv assms(14) ld' lne ok c assms(18) td]
    show "sent (snd (refollow_main e2 a2 v)) =
             sent v @ GetSigner s2 # map (\<lambda>u. PostFollow (fid u)) accounts"
      using assms(17) pf by auto
  qed
  have "sent ?w' = sent w2 @ map (\<lambda>u. DeleteFollow (fid u)) accounts"
    using assms(7) by simp
  with m re show ?thesis by blast
qed

theorem round_trip_witness:
  "\<exists>c w'. unfollow_main following_env example_args example_world = Some (c, w')
      \<and> sent w' = [GetSigner ''signer'', GetFollowing 5 None,
                   DeleteFollow (Some 1), DeleteFollow (Some 2)]
      \<and> sent (snd (refollow_main example_env
                (example_args\<lparr>csv_file := Some (record_file 5 ''20250101_120000'')\<rparr>)
                (example_world\<lparr>files := files w'\<rparr>))) =
          [GetSigner ''signer'', PostFollow (Some 1), PostFollow (Some 2)]"
proof -
  let ?a2 = "example_args\<lparr>csv_file := Some (record_file 5 ''20250101_120000'')\<rparr>"
  have f: "get_following_list following_env 5
             (snd (get_my_fid following_env ''signer'' example_world)) =
           Some (Inr example_accounts,
                 example_world\<lparr>sent := [GetSigner ''signer'', GetFollowing 5 None]\<rparr>)"
    by (simp add: following_env_identity(3) following_env_fetch)
  have ids: "\<forall>u \<in> set example_accounts. fid u \<noteq> None"
    by (simp add: example_accounts_def)
  have acc: "\<forall>n. unfollow_accepted (mutate_reply following_env n)"
    by (simp add: following_env_def example_env_def unfollow_accepted_def
        raise_for_status_def)
  have a: "limit example_args = None" "\<not> dry_run example_args" "0 \<le> delay example_args"
    "start_from ?a2 = 0" "\<not> dry_run ?a2" "0 \<le> delay ?a2"
    "csv_file ?a2 = Some (record_file 5 (run_timestamp following_env))"
    by (simp_all add: example_args_def following_env_identity(6))
  have fresh: "files example_world (record_file 5 (run_timestamp following_env)) = None"
    by (simp add: example_world_def)
  from round_trip [OF following_env_identity(1,2) _ f ids a(1,2,3) following_env_identity(4)
      acc following_env_identity(5) fresh example_identity(1) _ a(7,4,5,6), of 5]
  obtain c w' where
    m: "unfollow_main following_env example_args example_world = Some (c, w')"
    and s: "sent w' =
       sent (example_world\<lparr>sent := [GetSigner ''signer'', GetFollowing 5 None]\<rparr>)
       @ map (\<lambda>u. DeleteFollow (fid u)) example_accounts"
    and r: "\<forall>v. files v = files w' \<and> fst (get_my_fid example_env ''signer'' v) = Some 5
               \<and> fst (confirm_action v) = Inr True \<longrightarrow>
           sent (snd (refollow_main example_env ?a2 v)) =
             sent v @ GetSigner ''signer'' # map (\<lambda>u. PostFollow (fid u)) example_accounts"
    by auto
  from r [rule_format, of "example_world\<lparr>files := files w'\<rparr>"]
    example_identity(2,3) [of "files w'"]
  have "sent (snd (refollow_main example_env ?a2 (example_world\<lparr>files := files w'\<rparr>))) =
          [GetSigner ''signer'', PostFollow (Some 1), PostFollow (Some 2)]"
    by (simp add: example_accounts_def example_world_def)
  with m s show ?thesis
    by (simp add: example_accounts_def)
qed

end
